theory Spec2Isabelle
  imports Complex_Main "HOL-Library.Word" "HOL-Library.Signed_Division"
begin

unbundle bit_operations_syntax

section \<open>Data\<close>

text \<open>
  A Go \<open>byte\<close> is an 8-bit word and a \<open>[]byte\<close> a list of them.  A Go \<open>string\<close> is a
  sequence of bytes as well; it is modelled by \<open>string\<close>, whose characters are exactly the
  256 byte values.  A \<open>big.Int\<close> is an \<open>int\<close>.  Lengths and counts that Go holds in an
  \<open>int\<close> and that cannot be negative are \<open>nat\<close>; the requested bit size of \<open>NewEntropy\<close>
  and the loop index of \<open>MarshalEntropy\<close>, which can be negative, are \<open>int\<close>.
\<close>

type_synonym byte = "8 word"

text \<open>
  The package's error values.  \<open>RandomSourceFailure\<close> stands for whatever error
  \<open>crypto/rand.Read\<close> returns.  \<open>PanicIndexOutOfRange\<close> is not an error value of the
  package: it is the run-time panic of an index expression that is out of range.
\<close>

datatype error =
    ErrEntropyLengthInvalid
  | ErrMnemonicLengthInvalid
  | ErrMnemonicWordInvalid
  | ErrChecksumIncorrect
  | RandomSourceFailure
  | PanicIndexOutOfRange

record Encoder =
  wordList :: "string list"
  wordMap :: "string \<rightharpoonup> nat"

section \<open>The standard library, as far as the package uses it\<close>

subsection \<open>math/big\<close>

text \<open>\<open>SetBytes\<close> reads a big-endian byte slice as an unsigned integer.\<close>

definition SetBytes :: "byte list \<Rightarrow> int" where
  "SetBytes buf = foldl (\<lambda>acc b. acc * 256 + uint b) 0 buf"

text \<open>
  \<open>Bytes\<close> is the big-endian byte slice of the absolute value, without leading zero
  bytes.
\<close>

function Bytes :: "int \<Rightarrow> byte list" where
  "Bytes x = (if x = 0 then [] else Bytes (\<bar>x\<bar> div 256) @ [of_int (\<bar>x\<bar> mod 256)])"
  by pat_completeness auto
termination
  by (relation "measure (\<lambda>x. nat \<bar>x\<bar>)") auto

subsection \<open>encoding/binary\<close>

text \<open>\<open>binary.BigEndian.Uint16\<close> reads \<open>b[0]\<close> and \<open>b[1]\<close> and panics on a shorter slice.\<close>

fun Uint16 :: "byte list \<Rightarrow> error + 16 word" where
  "Uint16 (b0 # b1 # bs) = Inr (ucast b1 OR push_bit 8 (ucast b0))"
| "Uint16 bs = Inl PanicIndexOutOfRange"

subsection \<open>unicode/utf8, unicode and strings\<close>

definition RuneError :: nat where
  "RuneError = 0xFFFD"

text \<open>
  \<open>utf8.DecodeRuneInString\<close>: the first code point of a string and its width in bytes.
  An empty string gives \<open>(RuneError, 0)\<close>; a byte that does not start a well-formed
  encoding gives \<open>(RuneError, 1)\<close>.  The second byte of an encoding has a range that
  depends on the first (no overlong forms, no surrogates, nothing above U+10FFFF).
\<close>

definition DecodeRuneInString :: "string \<Rightarrow> nat \<times> nat" where
  "DecodeRuneInString s =
    (if length s < 1 then (RuneError, 0)
     else
       let s0 = (of_char (s ! 0) :: nat) in
       if s0 < 0x80 then (s0, 1)
       else if s0 < 0xC2 \<or> 0xF4 < s0 then (RuneError, 1)
       else
         let sz = (if s0 < 0xE0 then 2 else if s0 < 0xF0 then 3 else 4 :: nat);
             lo = (if s0 = 0xE0 then 0xA0 else if s0 = 0xF0 then 0x90 else 0x80 :: nat);
             hi = (if s0 = 0xED then 0x9F else if s0 = 0xF4 then 0x8F else 0xBF :: nat)
         in
         if length s < sz then (RuneError, 1)
         else
           let s1 = (of_char (s ! 1) :: nat) in
           if s1 < lo \<or> hi < s1 then (RuneError, 1)
           else if sz \<le> 2 then (push_bit 6 (s0 AND 0x1F) OR (s1 AND 0x3F), 2)
           else
             let s2 = (of_char (s ! 2) :: nat) in
             if s2 < 0x80 \<or> 0xBF < s2 then (RuneError, 1)
             else if sz \<le> 3 then
               (push_bit 12 (s0 AND 0x0F) OR push_bit 6 (s1 AND 0x3F) OR (s2 AND 0x3F), 3)
             else
               let s3 = (of_char (s ! 3) :: nat) in
               if s3 < 0x80 \<or> 0xBF < s3 then (RuneError, 1)
               else
                 (push_bit 18 (s0 AND 0x07) OR push_bit 12 (s1 AND 0x3F) OR
                  push_bit 6 (s2 AND 0x3F) OR (s3 AND 0x3F), 4))"

text \<open>
  \<open>unicode.IsSpace\<close>: in Latin-1 the characters tab, line feed, vertical tab, form feed,
  carriage return, space, U+0085 and U+00A0; above it the code points with the
  property White_Space.
\<close>

definition IsSpace :: "nat \<Rightarrow> bool" where
  "IsSpace r =
    (if r \<le> 0xFF then r \<in> {0x09, 0x0A, 0x0B, 0x0C, 0x0D, 0x20, 0x85, 0xA0}
     else r = 0x1680 \<or> (0x2000 \<le> r \<and> r \<le> 0x200A) \<or> r = 0x2028 \<or> r = 0x2029 \<or>
          r = 0x202F \<or> r = 0x205F \<or> r = 0x3000)"

text \<open>
  \<open>strings.Fields\<close> splits a string around each run of white space: it walks over the
  code points of the string; \<open>cur\<close> is the field that is open (empty when none is), a
  white space character closes it, any other character extends it, and the end of the
  string closes the last one.
\<close>

function fields_scan :: "string \<Rightarrow> string \<Rightarrow> string list" where
  "fields_scan cur s =
    (if s = [] then (if cur = [] then [] else [cur])
     else
       let r = fst (DecodeRuneInString s); w = snd (DecodeRuneInString s) in
       if IsSpace r then
         (if cur = [] then fields_scan [] (drop w s) else cur # fields_scan [] (drop w s))
       else fields_scan (cur @ take w s) (drop w s))"
  by pat_completeness auto
termination
proof (relation "measure (\<lambda>(cur, s). length s)")
  show "wf (measure (\<lambda>(cur, s). length s))"
    by simp
next
  fix cur s :: string and r w
  assume "s \<noteq> []" and "w = snd (DecodeRuneInString s)"
  then have "0 < w"
    by (auto simp add: DecodeRuneInString_def Let_def)
  with \<open>s \<noteq> []\<close> show "((([], drop w s)), (cur, s)) \<in> measure (\<lambda>(cur, s). length s)"
    by simp
next
  fix cur s :: string and r w
  assume "s \<noteq> []" and "w = snd (DecodeRuneInString s)"
  then have "0 < w"
    by (auto simp add: DecodeRuneInString_def Let_def)
  with \<open>s \<noteq> []\<close> show "((([], drop w s)), (cur, s)) \<in> measure (\<lambda>(cur, s). length s)"
    by simp
next
  fix cur s :: string and r w
  assume "s \<noteq> []" and "w = snd (DecodeRuneInString s)"
  then have "0 < w"
    by (auto simp add: DecodeRuneInString_def Let_def)
  with \<open>s \<noteq> []\<close> show "((cur @ take w s, drop w s), (cur, s)) \<in> measure (\<lambda>(cur, s). length s)"
    by simp
qed

definition Fields :: "string \<Rightarrow> string list" where
  "Fields s = fields_scan [] s"

text \<open>\<open>strings.Join\<close> concatenates the elements with the separator between them.\<close>

fun Join :: "string list \<Rightarrow> string \<Rightarrow> string" where
  "Join [] sep = []"
| "Join [a] sep = a"
| "Join (a # b # elems) sep = a @ sep @ Join (b # elems) sep"

text \<open>The conversion \<open>[]byte(s)\<close> of a string.\<close>

definition bytes_of_string :: "string \<Rightarrow> byte list" where
  "bytes_of_string s = map of_char s"


subsection \<open>crypto/sha256, crypto/rand and x/crypto/pbkdf2\<close>

text \<open>
  The three cryptographic primitives are parameters of the model.  A SHA-256 digest is
  an array of 32 bytes, read here as one 256-bit word whose most significant byte is
  \<open>hash[0]\<close>.  A random source is asked for a number of bytes and answers with the bytes
  it has written (at most that many are used) and its error, if any.  The key derivation
  takes the password, the salt, the iteration count and the length of the key and
  stands for \<open>pbkdf2.Key\<close> with \<open>sha512.New\<close>.
\<close>

type_synonym sha256 = "byte list \<Rightarrow> 256 word"

type_synonym rand_reader = "nat \<Rightarrow> byte list \<times> error option"

type_synonym pbkdf2_sha512 = "byte list \<Rightarrow> byte list \<Rightarrow> nat \<Rightarrow> nat \<Rightarrow> byte list"

text \<open>
  \<open>rand.Read(b)\<close> writes into the slice \<open>b\<close> in place: the bytes the source did not
  write keep their old values.
\<close>

definition rand_Read :: "rand_reader \<Rightarrow> byte list \<Rightarrow> byte list \<times> error option" where
  "rand_Read rnd b =
    (let got = take (length b) (fst (rnd (length b)))
     in (got @ drop (length got) b, snd (rnd (length b))))"

section \<open>The package\<close>

subsection \<open>Entropy sizes\<close>

text \<open>Go's \<open>%\<close> truncates towards zero, as \<open>smod\<close> does.\<close>

definition validateEntropyBitSize :: "int \<Rightarrow> error option" where
  "validateEntropyBitSize bitSize =
    (if bitSize smod 32 \<noteq> 0 \<or> bitSize < 128 \<or> bitSize > 256
     then Some ErrEntropyLengthInvalid else None)"

text \<open>
  \<open>NewEntropy\<close> returns a slice and an error.  Both are kept in the result, the slice as
  an option with \<open>None\<close> for \<open>nil\<close>, because the last line of the function returns both.
\<close>

definition NewEntropy :: "rand_reader \<Rightarrow> int \<Rightarrow> byte list option \<times> error option" where
  "NewEntropy rnd bitSize =
    (case validateEntropyBitSize bitSize of
       Some err \<Rightarrow> (None, Some err)
     | None \<Rightarrow>
         let entropy = replicate (nat (bitSize sdiv 8)) (0 :: byte);
             r = rand_Read rnd entropy
         in (Some (fst r), snd r))"

subsection \<open>The encoder\<close>

fun wordMap_loop :: "nat \<Rightarrow> string list \<Rightarrow> (string \<rightharpoonup> nat) \<Rightarrow> (string \<rightharpoonup> nat)" where
  "wordMap_loop i [] m = m"
| "wordMap_loop i (v # vs) m = wordMap_loop (Suc i) vs (m(v \<mapsto> i))"

definition NewEncoder :: "string list \<Rightarrow> Encoder" where
  "NewEncoder wl = \<lparr>wordList = wl, wordMap = wordMap_loop 0 wl Map.empty\<rparr>"

subsection \<open>Byte slices\<close>

definition padByteSlice :: "byte list \<Rightarrow> nat \<Rightarrow> byte list" where
  "padByteSlice buf len =
    (if length buf \<ge> len then buf
     else replicate (len - length buf) 0 @ buf)"

fun compareByteSlices_loop :: "byte list \<Rightarrow> byte list \<Rightarrow> bool" where
  "compareByteSlices_loop (x # xs) (y # ys) = (if x \<noteq> y then False else compareByteSlices_loop xs ys)"
| "compareByteSlices_loop xs ys = True"

definition compareByteSlices :: "byte list \<Rightarrow> byte list \<Rightarrow> bool" where
  "compareByteSlices a b =
    (if length a \<noteq> length b then False else compareByteSlices_loop a b)"

subsection \<open>The checksum\<close>

text \<open>
  The shift \<open>1 << (7 - i)\<close> is a shift of a byte by an unsigned count: \<open>7 - i\<close> wraps
  around when \<open>i\<close> is above 7, and a shift by 8 or more gives 0.
\<close>

definition checksumBit :: "byte \<Rightarrow> nat \<Rightarrow> bool" where
  "checksumBit firstChecksumByte i =
    (let count = (7 - int i) mod 2 ^ 64;
         mask = (if count < 8 then push_bit (nat count) 1 else 0 :: byte)
     in firstChecksumByte AND mask \<noteq> 0)"

function addChecksum_loop :: "byte \<Rightarrow> nat \<Rightarrow> nat \<Rightarrow> int \<Rightarrow> int" where
  "addChecksum_loop firstChecksumByte checksumBitLength i dataBigInt =
    (if i < checksumBitLength then
       let shifted = dataBigInt * 2
       in addChecksum_loop firstChecksumByte checksumBitLength (i + 1)
            (if checksumBit firstChecksumByte i then shifted OR 1 else shifted)
     else dataBigInt)"
  by pat_completeness auto
termination
  by (relation "measure (\<lambda>(b, n, i, d). n - i)") auto

definition addChecksum :: "sha256 \<Rightarrow> byte list \<Rightarrow> byte list" where
  "addChecksum sha data =
    (let hash = sha data;
         firstChecksumByte = (ucast (drop_bit 248 hash) :: byte);
         checksumBitLength = length data div 4;
         dataBigInt = SetBytes data
     in Bytes (addChecksum_loop firstChecksumByte checksumBitLength 0 dataBigInt))"

subsection \<open>MarshalEntropy\<close>

text \<open>
  One round of the loop of \<open>MarshalEntropy\<close> masks the 11 rightmost bits of the entropy,
  pads their bytes to a slice of two and reads the slice as an index.
\<close>

definition wordIndex :: "int \<Rightarrow> error + 16 word" where
  "wordIndex entropyInt =
    (let word = entropyInt AND 2047;
         wordBytes = padByteSlice (Bytes word) 2
     in Uint16 wordBytes)"

text \<open>
  The loop fills \<open>words\<close> from the last slot to the first and divides the entropy by
  2048 in every round.  The index expression \<open>e.wordList[...]\<close> panics when the index is
  not below the length of the list.
\<close>

function MarshalEntropy_loop ::
  "string list \<Rightarrow> int \<Rightarrow> int \<Rightarrow> string list \<Rightarrow> error + string list" where
  "MarshalEntropy_loop wl i entropyInt words =
    (if i \<ge> 0 then
       case wordIndex entropyInt of
         Inl err \<Rightarrow> Inl err
       | Inr idx \<Rightarrow>
           if unat idx < length wl
           then MarshalEntropy_loop wl (i - 1) (entropyInt div 2048) (words[nat i := wl ! unat idx])
           else Inl PanicIndexOutOfRange
     else Inr words)"
  by pat_completeness auto
termination
  by (relation "measure (\<lambda>(wl, i, n, ws). nat (i + 1))") auto

text \<open>Everything of \<open>MarshalEntropy\<close> before its last line: the slice \<open>words\<close>.\<close>

definition MarshalEntropy_words :: "sha256 \<Rightarrow> Encoder \<Rightarrow> byte list \<Rightarrow> error + string list" where
  "MarshalEntropy_words sha e entropy =
    (let entropyBitLength = length entropy * 8;
         checksumBitLength = entropyBitLength div 32;
         sentenceLength = (entropyBitLength + checksumBitLength) div 11
     in case validateEntropyBitSize (int entropyBitLength) of
          Some err \<Rightarrow> Inl err
        | None \<Rightarrow>
            let entropy' = addChecksum sha entropy;
                entropyInt = SetBytes entropy';
                words = replicate sentenceLength []
            in MarshalEntropy_loop (wordList e) (int sentenceLength - 1) entropyInt words)"

definition MarshalEntropy :: "sha256 \<Rightarrow> Encoder \<Rightarrow> byte list \<Rightarrow> error + string" where
  "MarshalEntropy sha e entropy =
    (case MarshalEntropy_words sha e entropy of
       Inl err \<Rightarrow> Inl err
     | Inr words \<Rightarrow> Inr (Join words '' ''))"

subsection \<open>UnmarshalEntropy\<close>

fun UnmarshalEntropy_loop :: "(string \<rightharpoonup> nat) \<Rightarrow> string list \<Rightarrow> int \<Rightarrow> error + int" where
  "UnmarshalEntropy_loop wm [] checksummedEntropy = Inr checksummedEntropy"
| "UnmarshalEntropy_loop wm (v # vs) checksummedEntropy =
    (case wm v of
       None \<Rightarrow> Inl ErrMnemonicWordInvalid
     | Some index \<Rightarrow> UnmarshalEntropy_loop wm vs (checksummedEntropy * 2048 + int index))"

definition UnmarshalEntropy :: "sha256 \<Rightarrow> Encoder \<Rightarrow> string \<Rightarrow> error + byte list" where
  "UnmarshalEntropy sha e mnemonic =
    (let mnemonicSlice = Fields mnemonic;
         wordCount = length mnemonicSlice;
         entropyBitSize = wordCount * 11;
         checksumBitSize = entropyBitSize mod 32;
         fullByteSize = (entropyBitSize - checksumBitSize) div 8 + 1;
         checksumByteSize = fullByteSize - (fullByteSize mod 4)
     in if wordCount mod 3 \<noteq> 0 \<or> wordCount < 12 \<or> wordCount > 24
        then Inl ErrMnemonicLengthInvalid
        else
          case UnmarshalEntropy_loop (wordMap e) mnemonicSlice 0 of
            Inl err \<Rightarrow> Inl err
          | Inr checksummedEntropy \<Rightarrow>
              let checksumModulo = 2 ^ checksumBitSize;
                  rawEntropy = checksummedEntropy div checksumModulo;
                  rawEntropyBytes = padByteSlice (Bytes rawEntropy) checksumByteSize;
                  checksummedEntropyBytes = padByteSlice (Bytes checksummedEntropy) fullByteSize;
                  newChecksummedEntropyBytes =
                    padByteSlice (addChecksum sha rawEntropyBytes) fullByteSize
              in if \<not> compareByteSlices checksummedEntropyBytes newChecksummedEntropyBytes
                 then Inl ErrChecksumIncorrect
                 else Inr checksummedEntropyBytes)"

subsection \<open>NewSeed\<close>

definition createSeedHash :: "pbkdf2_sha512 \<Rightarrow> string \<Rightarrow> string \<Rightarrow> byte list" where
  "createSeedHash kdf mnemonic password =
    kdf (bytes_of_string mnemonic) (bytes_of_string (''mnemonic'' @ password)) 2048 64"

definition NewSeed ::
  "sha256 \<Rightarrow> pbkdf2_sha512 \<Rightarrow> Encoder \<Rightarrow> string \<Rightarrow> string \<Rightarrow> error + byte list" where
  "NewSeed sha kdf e mnemonic password =
    (case UnmarshalEntropy sha e mnemonic of
       Inl err \<Rightarrow> Inl err
     | Inr u \<Rightarrow> Inr (createSeedHash kdf mnemonic password))"

section \<open>Notions of the specification and concrete instances\<close>

text \<open>
  The checksum of the specification's data model: the first \<open>entropyBits div 32\<close> bits
  of the digest of the entropy, as a number.
\<close>

definition Checksum :: "sha256 \<Rightarrow> byte list \<Rightarrow> int" where
  "Checksum sha entropy = drop_bit (256 - length entropy div 4) (uint (sha entropy))"

text \<open>
  The indices that \<open>n\<close> rounds of the loop of \<open>MarshalEntropy\<close> compute, in the order of
  the words of the mnemonic.
\<close>

fun wordIndices :: "nat \<Rightarrow> int \<Rightarrow> nat list" where
  "wordIndices 0 E = []"
| "wordIndices (Suc n) E = wordIndices n (E div 2048) @ [nat (E AND 2047)]"

text \<open>
  Stripping the checksum bits, in the words of the specification: the returned value,
  read big-endian, is divided by \<open>2 ^ (entropyBits div 32)\<close>; the quotient is written as
  \<open>entropyBits div 8\<close> bytes.
\<close>

definition stripChecksumBits :: "nat \<Rightarrow> byte list \<Rightarrow> byte list" where
  "stripChecksumBits entropyBits full =
    padByteSlice (Bytes (SetBytes full div 2 ^ (entropyBits div 32))) (entropyBits div 8)"

text \<open>
  A word list for concrete instances: the 2048 words of three letters from \<open>a\<close> to
  \<open>p\<close>, the word of index \<open>i\<close> spelling \<open>i\<close> in base 16.
\<close>

definition sample_letter :: "nat \<Rightarrow> char" where
  "sample_letter k = char_of (97 + k)"

definition sample_word :: "nat \<Rightarrow> string" where
  "sample_word i = [sample_letter (i div 256), sample_letter (i div 16 mod 16), sample_letter (i mod 16)]"

definition sample_wordList :: "string list" where
  "sample_wordList = map sample_word [0..<2048]"

text \<open>
  A hash function for concrete instances: it gives every input the SHA-256 digest of
  sixteen zero bytes, so it agrees with SHA-256 on that input.
\<close>

definition sample_sha256 :: sha256 where
  "sample_sha256 data = 0x374708fff7719dd5979ec875d56cd2286f6d3cf7ec317a3b25632aab28ec37bb"

text \<open>
  A short word list, a key derivation that returns zero bytes, and mnemonics for
  concrete instances.
\<close>

definition small_wordList :: "string list" where
  "small_wordList = [''zero'', ''one'', ''two'', ''three'']"

definition sample_pbkdf2 :: pbkdf2_sha512 where
  "sample_pbkdf2 password salt iter keyLen = replicate keyLen 0"

definition sample_mnemonic :: string where
  "sample_mnemonic = ''zero zero zero zero zero zero zero zero zero zero zero three''"

definition eleven_words :: string where
  "eleven_words = ''x x x x x x x x x x x''"

definition thirteen_words :: string where
  "thirteen_words = ''x x x x x x x x x x x x x''"

definition twentyfive_words :: string where
  "twentyfive_words = ''x x x x x x x x x x x x x x x x x x x x x x x x x''"

definition unknown_abc :: string where
  "unknown_abc = ''zero abc zero zero zero zero zero zero zero zero zero three''"

definition unknown_xyz :: string where
  "unknown_xyz = ''zero xyz zero zero zero zero zero zero zero zero zero three''"

text \<open>
  White space and words, as \<open>strings.Fields\<close> sees them: a string of white space only
  has no field, a word is a field of its own.
\<close>

definition onlySpace :: "string \<Rightarrow> bool" where
  "onlySpace s \<longleftrightarrow> Fields s = []"

definition isWord :: "string \<Rightarrow> bool" where
  "isWord w \<longleftrightarrow> Fields w = [w]"

text \<open>
  A spelling of a sequence of words: white space, then each word followed by white
  space.  It is well spaced when the words are words, the separators are white space,
  and every separator but the last is not empty.
\<close>

fun spell :: "string \<Rightarrow> (string \<times> string) list \<Rightarrow> string" where
  "spell lead [] = lead"
| "spell lead ((w, sp) # rest) = lead @ w @ spell sp rest"

fun wellSpaced :: "(string \<times> string) list \<Rightarrow> bool" where
  "wellSpaced [] = True"
| "wellSpaced [(w, sp)] = (isWord w \<and> onlySpace sp)"
| "wellSpaced ((w, sp) # p # ps) = (isWord w \<and> onlySpace sp \<and> sp \<noteq> [] \<and> wellSpaced (p # ps))"

text \<open>
  The continuation bytes of UTF-8.
\<close>

definition continuation :: "char \<Rightarrow> bool" where
  "continuation c \<longleftrightarrow> 0x80 \<le> (of_char c :: nat) \<and> (of_char c :: nat) \<le> 0xBF"

text \<open>
  Two spellings of the sample mnemonic.
\<close>

definition single_spaced :: "(string \<times> string) list" where
  "single_spaced =
    [(''zero'', '' ''), (''zero'', '' ''), (''zero'', '' ''), (''zero'', '' ''),
     (''zero'', '' ''), (''zero'', '' ''), (''zero'', '' ''), (''zero'', '' ''),
     (''zero'', '' ''), (''zero'', '' ''), (''zero'', '' ''), (''three'', [])]"

definition widely_spaced :: "(string \<times> string) list" where
  "widely_spaced =
    [(''zero'', ''  ''), (''zero'', [CHR 0x09]), (''zero'', [CHR 0x0A]),
     (''zero'', [CHR 0x0D, CHR 0x0A]), (''zero'', [CHR 0xE3, CHR 0x80, CHR 0x80]),
     (''zero'', [CHR 0xC2, CHR 0xA0]), (''zero'', [CHR 0xC2, CHR 0x85]),
     (''zero'', [CHR 0x0B]), (''zero'', [CHR 0x0C, CHR 0x20]),
     (''zero'', ''   ''), (''zero'', '' ''), (''three'', [CHR 0x20, CHR 0x0A])]"

section \<open>Auxiliary facts\<close>

text \<open>The recursive equations of the loops are unfolded by hand, one round at a time.\<close>

declare Bytes.simps [simp del]
declare fields_scan.simps [simp del]
declare addChecksum_loop.simps [simp del]
declare MarshalEntropy_loop.simps [simp del]

subsection \<open>Bytes and integers\<close>

lemma SetBytes_Nil: "SetBytes [] = 0"
  by (simp add: SetBytes_def)

lemma SetBytes_snoc: "SetBytes (xs @ [b]) = SetBytes xs * 256 + uint b"
  by (simp add: SetBytes_def)

lemma SetBytes_nonneg: "0 \<le> SetBytes xs"
  by (induction xs rule: rev_induct) (simp_all add: SetBytes_Nil SetBytes_snoc)

lemma SetBytes_less: "SetBytes xs < 256 ^ length xs"
proof (induction xs rule: rev_induct)
  case Nil
  then show ?case by (simp add: SetBytes_Nil)
next
  case (snoc b xs)
  have "uint b < 256"
    using uint_bounded [of b] by simp
  with snoc show ?case
    by (simp add: SetBytes_snoc)
qed

lemma SetBytes_zeros: "SetBytes (replicate k 0 @ xs) = SetBytes xs"
  by (induction k) (simp_all add: SetBytes_def)

lemma Bytes_0: "Bytes 0 = []"
  by (simp add: Bytes.simps)

lemma Bytes_pos: "0 < x \<Longrightarrow> Bytes x = Bytes (x div 256) @ [of_int (x mod 256)]"
  by (subst Bytes.simps) simp

lemma SetBytes_Bytes: "0 \<le> x \<Longrightarrow> SetBytes (Bytes x) = x"
proof (induction x rule: Bytes.induct)
  case (1 x)
  show ?case
  proof (cases "x = 0")
    case True
    then show ?thesis by (simp add: Bytes_0 SetBytes_Nil)
  next
    case False
    with 1 have pos: "0 < x" by simp
    then have "SetBytes (Bytes (\<bar>x\<bar> div 256)) = \<bar>x\<bar> div 256"
      using 1 False by simp
    with pos show ?thesis
      by (simp add: Bytes_pos SetBytes_snoc uint_word_of_int take_bit_eq_mod)
  qed
qed

lemma length_Bytes: "0 \<le> x \<Longrightarrow> x < 256 ^ k \<Longrightarrow> length (Bytes x) \<le> k"
proof (induction k arbitrary: x)
  case 0
  then have "x = 0" by simp
  then show ?case by (simp add: Bytes_0)
next
  case (Suc k)
  show ?case
  proof (cases "x = 0")
    case True
    then show ?thesis by (simp add: Bytes_0)
  next
    case False
    with Suc.prems have pos: "0 < x" by simp
    have "x < 256 * (256::int) ^ k"
      using Suc.prems by simp
    then have "x div 256 < 256 ^ k"
      by arith
    moreover have "0 \<le> x div 256"
      using pos by simp
    ultimately have "length (Bytes (x div 256)) \<le> k"
      by (rule Suc.IH [rotated])
    with pos show ?thesis
      by (simp add: Bytes_pos)
  qed
qed

lemma padByteSlice_snoc: "padByteSlice (ys @ [b]) (Suc n) = padByteSlice ys n @ [b]"
  by (simp add: padByteSlice_def)

lemma padByteSlice_Bytes_SetBytes: "padByteSlice (Bytes (SetBytes xs)) (length xs) = xs"
proof (induction xs rule: rev_induct)
  case Nil
  show ?case by (simp add: SetBytes_Nil Bytes_0 padByteSlice_def)
next
  case (snoc b xs)
  let ?S = "SetBytes xs"
  have nn: "0 \<le> ?S" by (rule SetBytes_nonneg)
  have ub: "0 \<le> uint b" "uint b < 256"
    using uint_bounded [of b] by simp_all
  show ?case
  proof (cases "?S * 256 + uint b = 0")
    case True
    with nn ub have "?S = 0" "uint b = 0" by arith+
    then have b0: "b = 0" by (simp add: uint_0_iff)
    from snoc \<open>?S = 0\<close> have "xs = replicate (length xs) 0"
      by (simp add: Bytes_0 padByteSlice_def split: if_splits)
    then have "xs @ [b] = replicate (Suc (length xs)) 0"
      using b0 by (metis replicate_Suc replicate_append_same)
    moreover have "padByteSlice (Bytes (SetBytes (xs @ [b]))) (length (xs @ [b])) = replicate (Suc (length xs)) 0"
      using True by (simp add: SetBytes_snoc Bytes_0 padByteSlice_def)
    ultimately show ?thesis by simp
  next
    case False
    have "0 \<le> uint b" by simp
    with nn False have pos: "0 < ?S * 256 + uint b" by arith
    have d: "(?S * 256 + uint b) div 256 = ?S"
      using ub by simp
    have m: "(?S * 256 + uint b) mod 256 = uint b"
      using ub by simp
    have "Bytes (SetBytes (xs @ [b])) =
        Bytes ((?S * 256 + uint b) div 256) @ [of_int ((?S * 256 + uint b) mod 256)]"
      using pos by (simp only: SetBytes_snoc Bytes_pos)
    then have "Bytes (SetBytes (xs @ [b])) = Bytes ?S @ [b]"
      by (simp only: d m word_of_int_uint)
    then show ?thesis
      using snoc by (simp add: padByteSlice_snoc)
  qed
qed

lemma length_padByteSlice: "length buf \<le> n \<Longrightarrow> length (padByteSlice buf n) = n"
  by (simp add: padByteSlice_def)

lemma SetBytes_padByteSlice: "SetBytes (padByteSlice buf n) = SetBytes buf"
  by (simp add: padByteSlice_def SetBytes_zeros)

lemma compareByteSlices_loop_eq: "length a = length b \<Longrightarrow> compareByteSlices_loop a b \<longleftrightarrow> a = b"
  by (induction a b rule: compareByteSlices_loop.induct) auto

lemma compareByteSlices_eq: "compareByteSlices a b \<longleftrightarrow> a = b"
  by (auto simp add: compareByteSlices_def compareByteSlices_loop_eq)

subsection \<open>The checksum\<close>

lemma checksumBit_bit: "i \<le> 7 \<Longrightarrow> checksumBit fb i = bit fb (7 - i)"
proof -
  assume i: "i \<le> 7"
  then have "(7 - int i) mod 2 ^ 64 = 7 - int i"
    by simp
  moreover have "nat (7 - int i) = 7 - i"
    using i by simp
  ultimately show ?thesis
    using i by (simp add: checksumBit_def Let_def bit_iff_and_push_bit_not_eq_0)
qed

lemma addChecksum_loop_closed:
  "i \<le> n \<Longrightarrow> n \<le> 8 \<Longrightarrow>
   addChecksum_loop fb n i d = d * 2 ^ (n - i) + take_bit (n - i) (drop_bit (8 - n) (uint fb))"
proof (induction fb n i d rule: addChecksum_loop.induct)
  case (1 fb n i d)
  show ?case
  proof (cases "i < n")
    case False
    with "1.prems" have "i = n" by simp
    then show ?thesis by (subst addChecksum_loop.simps) simp
  next
    case True
    define b :: int where "b = of_bool (bit fb (7 - i))"
    have i7: "i \<le> 7" using True "1.prems" by simp
    have step: "(if checksumBit fb i then d * 2 OR 1 else d * 2) = d * 2 + b"
      using i7 by (simp add: checksumBit_bit b_def or_one_eq)
    have IH: "addChecksum_loop fb n (i + 1) (d * 2 + b) =
        (d * 2 + b) * 2 ^ (n - (i + 1)) + take_bit (n - (i + 1)) (drop_bit (8 - n) (uint fb))"
      using "1.IH" [OF True refl] True "1.prems" step by simp
    obtain m where m: "n - i = Suc m"
      using True by (metis Suc_diff_Suc)
    then have m': "n - (i + 1) = m" by simp
    have "8 - n + m = 7 - i"
      using m "1.prems" True by simp
    moreover have "7 - i < 8"
      by simp
    ultimately have bitm: "bit (drop_bit (8 - n) (uint fb)) m = bit fb (7 - i)"
      by (simp add: bit_drop_bit_eq bit_uint_iff)
    have "addChecksum_loop fb n i d = addChecksum_loop fb n (i + 1) (d * 2 + b)"
      using True step by (subst addChecksum_loop.simps) (simp add: Let_def)
    also have "\<dots> = (d * 2 + b) * 2 ^ m + take_bit m (drop_bit (8 - n) (uint fb))"
      using IH m' by simp
    also have "\<dots> = d * 2 ^ Suc m + take_bit (Suc m) (drop_bit (8 - n) (uint fb))"
      by (simp add: take_bit_Suc_from_most bitm b_def algebra_simps)
    finally show ?thesis
      using m by simp
  qed
qed

lemma first_bits:
  "n \<le> 8 \<Longrightarrow>
   take_bit n (drop_bit (8 - n) (uint (ucast (drop_bit 248 (h :: 256 word)) :: byte))) =
   drop_bit (256 - n) (uint h)"
  by (rule bit_eqI) (auto simp add: bit_simps dest: bit_imp_le_length)

lemma addChecksum_closed:
  "length d div 4 \<le> 8 \<Longrightarrow>
   addChecksum sha d = Bytes (SetBytes d * 2 ^ (length d div 4) + Checksum sha d)"
  by (simp add: addChecksum_def Let_def addChecksum_loop_closed first_bits Checksum_def)

lemma Checksum_bounds:
  assumes "length d div 4 \<le> 8"
  shows "0 \<le> Checksum sha d" and "Checksum sha d < 2 ^ (length d div 4)"
proof -
  have eq: "Checksum sha d = take_bit (length d div 4)
      (drop_bit (8 - length d div 4) (uint (ucast (drop_bit 248 (sha d)) :: byte)))"
    using assms by (simp add: Checksum_def first_bits)
  show "0 \<le> Checksum sha d"
    by (simp add: Checksum_def)
  show "Checksum sha d < 2 ^ (length d div 4)"
    unfolding eq by (rule take_bit_int_less_exp)
qed

subsection \<open>The loops of MarshalEntropy and UnmarshalEntropy\<close>

lemma and_2047: "(E :: int) AND 2047 = E mod 2048"
proof -
  have "E AND mask 11 = take_bit 11 E"
    by (simp only: take_bit_eq_mask)
  then show ?thesis
    by (simp add: take_bit_eq_mod mask_eq_exp_minus_1)
qed

lemma and_2047_bounds: "0 \<le> (E :: int) AND 2047" "(E :: int) AND 2047 < 2048"
  by (simp_all add: and_2047)

lemma two_bytes:
  assumes "0 \<le> w" and "w < 65536"
  shows "padByteSlice (Bytes w) 2 = [of_int (w div 256), of_int (w mod 256)]"
proof -
  consider "w = 0" | "0 < w" "w < 256" | "256 \<le> w"
    using assms by linarith
  then show ?thesis
  proof cases
    case 1
    then show ?thesis
      by (simp add: Bytes_0 padByteSlice_def numeral_2_eq_2)
  next
    case 2
    then have "w div 256 = 0" "w mod 256 = w" by simp_all
    with 2 show ?thesis
      by (simp add: Bytes_pos Bytes_0 padByteSlice_def)
  next
    case 3
    with assms have hi: "0 < w div 256" "w div 256 < 256" by simp_all
    then have "w div 256 div 256 = 0" "w div 256 mod 256 = w div 256" by simp_all
    with 3 hi assms show ?thesis
      by (simp add: Bytes_pos [of w] Bytes_pos [of "w div 256"] Bytes_0 padByteSlice_def)
  qed
qed

lemma two_bytes_value:
  "ucast (word_of_int (w mod 256) :: byte) OR push_bit 8 (ucast (word_of_int (w div 256) :: byte))
    = (word_of_int w :: 16 word)"
  by (rule bit_word_eqI)
    (auto simp add: bit_simps simp flip: take_bit_eq_mod [where n = 8, simplified] drop_bit_eq_div [where n = 8, simplified])

lemma wordIndex_eq: "wordIndex E = Inr (word_of_int (E AND 2047))"
proof -
  have "E AND 2047 < 65536"
    using and_2047_bounds(2) [of E] by linarith
  then show ?thesis
    by (simp add: wordIndex_def Let_def two_bytes and_2047_bounds two_bytes_value)
qed

lemma unat_wordIndex: "unat (word_of_int (E AND 2047) :: 16 word) = nat (E AND 2047)"
proof -
  have "(2048::int) < 2 ^ 16"
    by simp
  then have "E AND 2047 < 2 ^ 16"
    using and_2047_bounds(2) [of E] by (rule less_trans [rotated])
  then have "take_bit 16 (E AND 2047) = E AND 2047"
    by (intro take_bit_int_eq_self and_2047_bounds)
  then show ?thesis
    by (simp only: unat_eq_nat_uint uint_word_of_int_eq len_of_numeral_defs) simp
qed

lemma wordIndices_less: "k \<in> set (wordIndices n E) \<Longrightarrow> k < 2048"
proof (induction n arbitrary: E)
  case 0
  then show ?case by simp
next
  case (Suc n)
  have "nat (E AND 2047) < 2048"
    using and_2047_bounds [of E] by linarith
  with Suc show ?case by auto
qed

lemma length_wordIndices: "length (wordIndices n E) = n"
  by (induction n arbitrary: E) simp_all

lemma wordIndices_value:
  "foldl (\<lambda>a k. a * 2048 + int k) 0 (wordIndices n E) = E mod 2048 ^ n"
proof (induction n arbitrary: E)
  case 0
  show ?case by simp
next
  case (Suc n)
  have "E mod (2048 * 2048 ^ n) = 2048 * (E div 2048 mod 2048 ^ n) + E mod 2048"
    by (rule zmod_zmult2_eq) simp
  with Suc [of "E div 2048"] show ?case
    using and_2047_bounds [of E] by (simp add: and_2047)
qed

lemma MarshalEntropy_loop_closed:
  "n \<le> length words \<Longrightarrow> \<forall>k \<in> set (wordIndices n E). k < length wl \<Longrightarrow>
   MarshalEntropy_loop wl (int n - 1) E words =
     Inr (map ((!) wl) (wordIndices n E) @ drop n words)"
proof (induction n arbitrary: E words)
  case 0
  show ?case
    by (subst MarshalEntropy_loop.simps) simp
next
  case (Suc n)
  let ?k = "nat (E AND 2047)"
  let ?words = "words[n := wl ! ?k]"
  have k: "?k < length wl"
    using Suc.prems(2) by simp
  have n: "n < length words"
    using Suc.prems(1) by simp
  have "MarshalEntropy_loop wl (int n - 1) (E div 2048) ?words =
      Inr (map ((!) wl) (wordIndices n (E div 2048)) @ drop n ?words)"
    using Suc.prems by (intro Suc.IH) simp_all
  moreover have "drop n ?words = (wl ! ?k) # drop (Suc n) words"
    using n by (simp add: upd_conv_take_nth_drop)
  moreover have "MarshalEntropy_loop wl (int (Suc n) - 1) E words =
      MarshalEntropy_loop wl (int n - 1) (E div 2048) ?words"
    using k by (subst MarshalEntropy_loop.simps) (simp add: wordIndex_eq unat_wordIndex)
  ultimately show ?case
    by simp
qed

lemma UnmarshalEntropy_loop_indices:
  "\<forall>k \<in> set ks. wm (wl ! k) = Some k \<Longrightarrow>
   UnmarshalEntropy_loop wm (map ((!) wl) ks) acc = Inr (foldl (\<lambda>a k. a * 2048 + int k) acc ks)"
  by (induction ks arbitrary: acc) simp_all

subsection \<open>The word map\<close>

lemma wordMap_loop_notin: "w \<notin> set vs \<Longrightarrow> wordMap_loop i vs m w = m w"
  by (induction vs arbitrary: i m) auto

lemma wordMap_loop_nth:
  "distinct vs \<Longrightarrow> j < length vs \<Longrightarrow> wordMap_loop i vs m (vs ! j) = Some (i + j)"
proof (induction vs arbitrary: i m j)
  case Nil
  then show ?case by simp
next
  case (Cons v vs)
  show ?case
  proof (cases j)
    case 0
    with Cons.prems show ?thesis
      by (simp add: wordMap_loop_notin)
  next
    case (Suc j')
    have "wordMap_loop (Suc i) vs (m(v \<mapsto> i)) (vs ! j') = Some (Suc i + j')"
      by (rule Cons.IH) (use Cons.prems Suc in simp_all)
    with Suc show ?thesis
      by simp
  qed
qed

lemma wordMap_loop_Some:
  "wordMap_loop i vs m w = Some k \<Longrightarrow> m w = Some k \<or> (i \<le> k \<and> k < i + length vs \<and> vs ! (k - i) = w)"
proof (induction vs arbitrary: i m)
  case Nil
  then show ?case by simp
next
  case (Cons v vs)
  from Cons.IH [OF Cons.prems [simplified]]
  show ?case
    by (auto split: if_splits simp add: nth_Cons')
qed

lemma wordMap_loop_None: "wordMap_loop i vs m w = None \<longleftrightarrow> w \<notin> set vs \<and> m w = None"
  by (induction vs arbitrary: i m) auto

lemma wordMap_NewEncoder_nth:
  "distinct wl \<Longrightarrow> k < length wl \<Longrightarrow> wordMap (NewEncoder wl) (wl ! k) = Some k"
  by (simp add: NewEncoder_def wordMap_loop_nth)

lemma wordMap_NewEncoder_Some:
  "wordMap (NewEncoder wl) w = Some k \<Longrightarrow> k < length wl \<and> wl ! k = w"
  using wordMap_loop_Some [of 0 wl Map.empty w k] by (simp add: NewEncoder_def)

lemma wordMap_NewEncoder_None: "wordMap (NewEncoder wl) w = None \<longleftrightarrow> w \<notin> set wl"
  by (simp add: NewEncoder_def wordMap_loop_None)

subsection \<open>Fields and Join\<close>

lemma DecodeRune_width_pos: "s \<noteq> [] \<Longrightarrow> 0 < snd (DecodeRuneInString s)"
  by (auto simp add: DecodeRuneInString_def Let_def)

lemma DecodeRune_width_le: "snd (DecodeRuneInString s) \<le> length s"
  by (cases s) (simp_all add: DecodeRuneInString_def Let_def Suc_le_eq)

lemma DecodeRune_ascii:
  "(of_char c :: nat) < 128 \<Longrightarrow> DecodeRuneInString (c # s) = (of_char c, 1)"
  by (simp add: DecodeRuneInString_def)

lemma DecodeRune_append_space:
  assumes "w \<noteq> []"
  shows "DecodeRuneInString (w @ CHR '' '' # rest) = DecodeRuneInString w"
proof -
  consider c0 where "w = [c0]"
    | c0 c1 where "w = [c0, c1]"
    | c0 c1 c2 where "w = [c0, c1, c2]"
    | c0 c1 c2 c3 w' where "w = c0 # c1 # c2 # c3 # w'"
    using assms by (metis list.exhaust)
  then show ?thesis
  proof cases
    case 1
    then show ?thesis by (simp add: DecodeRuneInString_def Let_def)
  next
    case 2
    then show ?thesis by (simp add: DecodeRuneInString_def Let_def)
  next
    case 3
    then show ?thesis by (simp add: DecodeRuneInString_def Let_def)
  next
    case 4
    then show ?thesis by (simp add: DecodeRuneInString_def Let_def)
  qed
qed

lemma fields_scan_Nil: "fields_scan cur [] = (if cur = [] then [] else [cur])"
  by (subst fields_scan.simps) simp

lemma fields_scan_space:
  "s \<noteq> [] \<Longrightarrow> IsSpace (fst (DecodeRuneInString s)) \<Longrightarrow>
   fields_scan cur s =
     (if cur = [] then fields_scan [] (drop (snd (DecodeRuneInString s)) s)
      else cur # fields_scan [] (drop (snd (DecodeRuneInString s)) s))"
  by (subst fields_scan.simps) (simp add: Let_def)

lemma fields_scan_other:
  "s \<noteq> [] \<Longrightarrow> \<not> IsSpace (fst (DecodeRuneInString s)) \<Longrightarrow>
   fields_scan cur s =
     fields_scan (cur @ take (snd (DecodeRuneInString s)) s) (drop (snd (DecodeRuneInString s)) s)"
  by (subst fields_scan.simps) (simp add: Let_def)

lemma fields_scan_size: "sum_list (map length (fields_scan cur s)) \<le> length cur + length s"
proof (induction cur s rule: fields_scan.induct)
  case (1 cur s)
  show ?case
  proof (cases "s = []")
    case True
    then show ?thesis by (simp add: fields_scan_Nil)
  next
    case False
    let ?r = "fst (DecodeRuneInString s)" and ?k = "snd (DecodeRuneInString s)"
    show ?thesis
    proof (cases "IsSpace ?r")
      case True
      with False "1.IH"(1,2) [OF False refl refl True] show ?thesis
        by (cases "cur = []") (auto simp add: fields_scan_space)
    next
      case notsp: False
      with False "1.IH"(3) [OF False refl refl notsp] show ?thesis
        by (simp add: fields_scan_other)
    qed
  qed
qed

lemma fields_scan_token:
  "fields_scan cur w = [cur @ w] \<Longrightarrow>
   fields_scan cur (w @ CHR '' '' # rest) = (cur @ w) # fields_scan [] rest"
proof (induction cur w rule: fields_scan.induct)
  case (1 cur w)
  have sp: "DecodeRuneInString (CHR '' '' # rest) = (32, 1)"
    by (simp add: DecodeRune_ascii)
  have sp32: "IsSpace 32"
    by (simp add: IsSpace_def)
  show ?case
  proof (cases "w = []")
    case True
    with "1.prems" have "cur \<noteq> []"
      by (auto simp add: fields_scan_Nil split: if_splits)
    with True show ?thesis
      by (simp add: fields_scan_space sp sp32)
  next
    case False
    let ?r = "fst (DecodeRuneInString w)" and ?k = "snd (DecodeRuneInString w)"
    have dec: "DecodeRuneInString (w @ CHR '' '' # rest) = DecodeRuneInString w"
      using False by (rule DecodeRune_append_space)
    have k: "0 < ?k" "?k \<le> length w"
      using False by (simp_all add: DecodeRune_width_pos DecodeRune_width_le)
    show ?thesis
    proof (cases "IsSpace ?r")
      case True
      show ?thesis
      proof (cases "cur = []")
        case True
        with \<open>IsSpace ?r\<close> False "1.prems" have "fields_scan [] (drop ?k w) = [w]"
          by (simp add: fields_scan_space)
        with fields_scan_size [of "[]" "drop ?k w"] have "length w \<le> length w - ?k"
          by simp
        with k False have False
          by (cases w) simp_all
        then show ?thesis ..
      next
        case cur: False
        with \<open>IsSpace ?r\<close> False "1.prems" have "w = []"
          by (simp add: fields_scan_space)
        with False show ?thesis by simp
      qed
    next
      case notsp: False
      have "fields_scan (cur @ take ?k w) (drop ?k w) = [(cur @ take ?k w) @ drop ?k w]"
        using "1.prems" False notsp by (simp add: fields_scan_other)
      then have "fields_scan (cur @ take ?k w) (drop ?k w @ CHR '' '' # rest) =
          ((cur @ take ?k w) @ drop ?k w) # fields_scan [] rest"
        by (rule "1.IH"(3) [OF False refl refl notsp])
      moreover have "fields_scan cur (w @ CHR '' '' # rest) =
          fields_scan (cur @ take ?k w) (drop ?k w @ CHR '' '' # rest)"
        using notsp k by (subst fields_scan_other) (simp_all add: dec)
      ultimately show ?thesis
        by simp
    qed
  qed
qed

lemma Fields_Join:
  "\<forall>w \<in> set ws. Fields w = [w] \<Longrightarrow> Fields (Join ws '' '') = ws"
proof (induction ws "'' ''" rule: Join.induct)
  case 1
  show ?case by (simp add: Fields_def fields_scan_Nil)
next
  case (2 a)
  then show ?case by simp
next
  case (3 a b elems)
  from "3.prems" have "fields_scan [] a = [[] @ a]"
    by (simp add: Fields_def)
  then have "fields_scan [] (a @ CHR '' '' # Join (b # elems) '' '') =
      ([] @ a) # fields_scan [] (Join (b # elems) '' '')"
    by (rule fields_scan_token)
  with 3 show ?case
    by (simp add: Fields_def)
qed

lemma fields_scan_ascii:
  "\<forall>c \<in> set w. (of_char c :: nat) < 128 \<and> \<not> IsSpace (of_char c) \<Longrightarrow>
   fields_scan cur w = (if cur @ w = [] then [] else [cur @ w])"
proof (induction w arbitrary: cur)
  case Nil
  show ?case by (simp add: fields_scan_Nil)
next
  case (Cons c w)
  then have "fields_scan cur (c # w) = fields_scan (cur @ [c]) w"
    by (subst fields_scan_other) (simp_all add: DecodeRune_ascii)
  with Cons show ?case
    by simp
qed

subsection \<open>Normal forms of MarshalEntropy and UnmarshalEntropy\<close>

lemma validateEntropyBitSize_nat:
  "validateEntropyBitSize (int n) = None \<longleftrightarrow> n \<in> {128, 160, 192, 224, 256}"
proof -
  have "int n smod 32 = int n mod 32"
    by (cases "n = 0") (simp_all add: signed_modulo_int_def)
  moreover have "int n mod 32 = int (n mod 32)"
    by (simp add: zmod_int)
  moreover have "(n mod 32 = 0 \<and> 128 \<le> n \<and> n \<le> 256) \<longleftrightarrow>
      (n = 128 \<or> n = 160 \<or> n = 192 \<or> n = 224 \<or> n = 256)"
    by presburger
  ultimately show ?thesis
    by (simp add: validateEntropyBitSize_def) linarith
qed

lemma valid_length:
  "8 * length entropy \<in> {128, 160, 192, 224, 256 :: nat} \<longleftrightarrow>
   (\<exists>k. length entropy = 4 * k \<and> 4 \<le> k \<and> k \<le> 8)"
  by auto

lemma MarshalEntropy_loop_result:
  "n \<le> length words \<Longrightarrow>
   MarshalEntropy_loop wl (int n - 1) E words =
     (if \<forall>k \<in> set (wordIndices n E). k < length wl
      then Inr (map ((!) wl) (wordIndices n E) @ drop n words)
      else Inl PanicIndexOutOfRange)"
proof (induction n arbitrary: E words)
  case 0
  show ?case
    by (subst MarshalEntropy_loop.simps) simp
next
  case (Suc n)
  let ?k = "nat (E AND 2047)"
  let ?words = "words[n := wl ! ?k]"
  have n: "n < length words"
    using Suc.prems(1) by simp
  show ?case
  proof (cases "?k < length wl")
    case False
    then have "MarshalEntropy_loop wl (int (Suc n) - 1) E words = Inl PanicIndexOutOfRange"
      by (subst MarshalEntropy_loop.simps) (simp add: wordIndex_eq unat_wordIndex)
    with False show ?thesis
      by simp
  next
    case True
    have "MarshalEntropy_loop wl (int n - 1) (E div 2048) ?words =
      (if \<forall>k \<in> set (wordIndices n (E div 2048)). k < length wl
       then Inr (map ((!) wl) (wordIndices n (E div 2048)) @ drop n ?words)
       else Inl PanicIndexOutOfRange)"
      using Suc.prems by (intro Suc.IH) simp_all
    moreover have "drop n ?words = (wl ! ?k) # drop (Suc n) words"
      using n by (simp add: upd_conv_take_nth_drop)
    moreover have "MarshalEntropy_loop wl (int (Suc n) - 1) E words =
        MarshalEntropy_loop wl (int n - 1) (E div 2048) ?words"
      using True by (subst MarshalEntropy_loop.simps) (simp add: wordIndex_eq unat_wordIndex)
    ultimately show ?thesis
      using True by simp
  qed
qed

lemma sentenceLength: "(4 * k * 8 + 4 * k * 8 div 32) div 11 = 3 * (k :: nat)"
  by presburger

lemma MarshalEntropy_words_result:
  assumes "length entropy = 4 * k" "4 \<le> k" "k \<le> 8"
  shows "MarshalEntropy_words sha e entropy =
    (if \<forall>i \<in> set (wordIndices (3 * k) (SetBytes entropy * 2 ^ k + Checksum sha entropy)).
          i < length (wordList e)
     then Inr (map ((!) (wordList e))
            (wordIndices (3 * k) (SetBytes entropy * 2 ^ k + Checksum sha entropy)))
     else Inl PanicIndexOutOfRange)"
proof -
  let ?X = "SetBytes entropy * 2 ^ k + Checksum sha entropy"
  have bits: "length entropy * 8 = 32 * k"
    using assms(1) by simp
  have "k = 4 \<or> k = 5 \<or> k = 6 \<or> k = 7 \<or> k = 8"
    using assms by linarith
  then have v: "validateEntropyBitSize (int (32 * k)) = None"
    by (subst validateEntropyBitSize_nat) auto
  have sl: "(32 * k + 32 * k div 32) div 11 = 3 * k"
    by presburger
  have k: "length entropy div 4 = k"
    using assms by simp
  have X: "SetBytes (addChecksum sha entropy) = ?X"
    using assms Checksum_bounds(1) [of entropy sha] SetBytes_nonneg [of entropy]
    by (simp add: addChecksum_closed k SetBytes_Bytes)
  have loop: "MarshalEntropy_loop (wordList e) (int (3 * k) - 1) ?X (replicate (3 * k) []) =
    (if \<forall>i \<in> set (wordIndices (3 * k) ?X). i < length (wordList e)
     then Inr (map ((!) (wordList e)) (wordIndices (3 * k) ?X) @ drop (3 * k) (replicate (3 * k) []))
     else Inl PanicIndexOutOfRange)"
    by (rule MarshalEntropy_loop_result) simp
  show ?thesis
    unfolding MarshalEntropy_words_def Let_def bits v sl X option.case loop
    by simp
qed

lemma UnmarshalEntropy_count:
  assumes "length (Fields m) = 3 * k" "4 \<le> k" "k \<le> 8"
  shows "UnmarshalEntropy sha e m =
    (case UnmarshalEntropy_loop (wordMap e) (Fields m) 0 of
       Inl err \<Rightarrow> Inl err
     | Inr V \<Rightarrow>
         if padByteSlice (Bytes V) (4 * k + 1) =
            padByteSlice (addChecksum sha (padByteSlice (Bytes (V div 2 ^ k)) (4 * k))) (4 * k + 1)
         then Inr (padByteSlice (Bytes V) (4 * k + 1))
         else Inl ErrChecksumIncorrect)"
proof -
  have k: "k = 4 \<or> k = 5 \<or> k = 6 \<or> k = 7 \<or> k = 8"
    using assms by linarith
  have a: "3 * k * 11 mod 32 = k"
    using k by auto
  have b: "(3 * k * 11 - k) div 8 + 1 = 4 * k + 1"
    using k by auto
  have c: "4 * k + 1 - (4 * k + 1) mod 4 = 4 * k"
    using k by auto
  have d: "\<not> (3 * k mod 3 \<noteq> 0 \<or> 3 * k < 12 \<or> 3 * k > 24)"
    using assms by simp
  show ?thesis
    unfolding UnmarshalEntropy_def Let_def assms(1) a b c if_not_P [OF d]
    by (simp add: compareByteSlices_eq split: sum.splits)
qed

lemma wordList_NewEncoder: "wordList (NewEncoder wl) = wl"
  by (simp add: NewEncoder_def)

lemma checksummed_bounds:
  fixes sha :: sha256
  assumes "length entropy = 4 * k" "k \<le> 8"
  defines "X \<equiv> SetBytes entropy * 2 ^ k + Checksum sha entropy"
  shows "0 \<le> X" and "X < 2048 ^ (3 * k)" and "X div 2 ^ k = SetBytes entropy"
proof -
  have k: "length entropy div 4 = k"
    using assms by simp
  have c: "0 \<le> Checksum sha entropy" "Checksum sha entropy < 2 ^ k"
    using Checksum_bounds [of entropy sha] assms(2) by (simp_all add: k)
  have s: "0 \<le> SetBytes entropy" "SetBytes entropy < 256 ^ (4 * k)"
    using SetBytes_nonneg [of entropy] SetBytes_less [of entropy] by (simp_all add: assms(1))
  show "0 \<le> X"
    using c s by (simp add: X_def)
  have "(256::int) ^ (4 * k) = (2 ^ 8) ^ (4 * k)"
    by simp
  also have "\<dots> = 2 ^ (8 * (4 * k))"
    by (rule power_mult [symmetric])
  finally have "(256::int) ^ (4 * k) = 2 ^ (32 * k)"
    by simp
  then have "SetBytes entropy + 1 \<le> 2 ^ (32 * k)"
    using s by simp
  then have "(SetBytes entropy + 1) * 2 ^ k \<le> 2 ^ (32 * k) * 2 ^ k"
    by (rule mult_right_mono) simp
  moreover have "X < (SetBytes entropy + 1) * 2 ^ k"
    using c by (simp add: X_def algebra_simps)
  moreover have "(2::int) ^ (32 * k) * 2 ^ k = 2048 ^ (3 * k)"
  proof -
    have "(2048::int) ^ (3 * k) = (2 ^ 11) ^ (3 * k)"
      by simp
    also have "\<dots> = 2 ^ (11 * (3 * k))"
      by (rule power_mult [symmetric])
    also have "\<dots> = 2 ^ (33 * k)"
      by simp
    finally show ?thesis
      by (simp add: power_add [symmetric])
  qed
  ultimately show "X < 2048 ^ (3 * k)"
    by simp
  show "X div 2 ^ k = SetBytes entropy"
    using c by (simp add: X_def)
qed

lemma roundtrip:
  fixes sha :: sha256
  assumes len: "length entropy = 4 * k" "4 \<le> k" "k \<le> 8"
    and wl: "length wl = 2048" "distinct wl" "\<forall>w \<in> set wl. Fields w = [w]"
  defines "X \<equiv> SetBytes entropy * 2 ^ k + Checksum sha entropy"
  defines "words \<equiv> map ((!) wl) (wordIndices (3 * k) X)"
  shows "MarshalEntropy sha (NewEncoder wl) entropy = Inr (Join words '' '')"
    and "UnmarshalEntropy sha (NewEncoder wl) (Join words '' '') =
      Inr (padByteSlice (Bytes X) (4 * k + 1))"
proof -
  have idx: "\<forall>i \<in> set (wordIndices (3 * k) X). i < length wl"
    using wordIndices_less [of _ "3 * k" X] wl(1) by simp
  have "MarshalEntropy_words sha (NewEncoder wl) entropy = Inr words"
    using idx by (simp add: MarshalEntropy_words_result [OF len] wordList_NewEncoder X_def words_def)
  then show "MarshalEntropy sha (NewEncoder wl) entropy = Inr (Join words '' '')"
    by (simp add: MarshalEntropy_def)
  have "\<forall>w \<in> set words. Fields w = [w]"
    using idx wl(3) by (auto simp add: words_def)
  then have fields: "Fields (Join words '' '') = words"
    by (rule Fields_Join)
  have count: "length (Fields (Join words '' '')) = 3 * k"
    by (simp only: fields) (simp add: words_def length_wordIndices)
  have X: "0 \<le> X" "X < 2048 ^ (3 * k)" "X div 2 ^ k = SetBytes entropy"
    unfolding X_def using len(1,3) by (rule checksummed_bounds)+
  have "\<forall>i \<in> set (wordIndices (3 * k) X). wordMap (NewEncoder wl) (wl ! i) = Some i"
    using idx wl(2) by (simp add: wordMap_NewEncoder_nth)
  then have "UnmarshalEntropy_loop (wordMap (NewEncoder wl)) words 0 =
      Inr (foldl (\<lambda>a k. a * 2048 + int k) 0 (wordIndices (3 * k) X))"
    unfolding words_def by (rule UnmarshalEntropy_loop_indices)
  then have loop: "UnmarshalEntropy_loop (wordMap (NewEncoder wl)) words 0 = Inr X"
    using X(1,2) by (simp add: wordIndices_value)
  have raw: "padByteSlice (Bytes (X div 2 ^ k)) (4 * k) = entropy"
    using padByteSlice_Bytes_SetBytes [of entropy] by (simp add: X(3) len(1))
  have "length entropy div 4 = k"
    using len(1) by simp
  then have sum: "addChecksum sha entropy = Bytes X"
    using len(3) by (simp add: addChecksum_closed X_def)
  show "UnmarshalEntropy sha (NewEncoder wl) (Join words '' '') =
      Inr (padByteSlice (Bytes X) (4 * k + 1))"
    by (simp add: UnmarshalEntropy_count [OF count len(2,3)] fields loop raw sum)
qed

lemma int_div_less:
  fixes x q n :: int
  assumes "0 < q" and "x < n * q"
  shows "x div q < n"
proof -
  have "x div q * q + x mod q = x"
    by simp
  moreover have "0 \<le> x mod q"
    using assms(1) by simp
  ultimately have "x div q * q \<le> x"
    by linarith
  with assms(2) have "x div q * q < n * q"
    by linarith
  with assms(1) show ?thesis
    by (simp add: mult_less_cancel_right_pos)
qed

lemma valid_count:
  "\<not> (n mod 3 \<noteq> 0 \<or> n < 12 \<or> n > 24) \<longleftrightarrow> (\<exists>k. n = 3 * k \<and> 4 \<le> k \<and> k \<le> (8::nat))"
  by auto

lemma UnmarshalEntropy_invalid_count:
  "length (Fields m) mod 3 \<noteq> 0 \<or> length (Fields m) < 12 \<or> length (Fields m) > 24 \<Longrightarrow>
   UnmarshalEntropy sha e m = Inl ErrMnemonicLengthInvalid"
  by (simp add: UnmarshalEntropy_def Let_def)

lemma UnmarshalEntropy_loop_bounds:
  "UnmarshalEntropy_loop wm ws acc = Inr V \<Longrightarrow> \<forall>w i. wm w = Some i \<longrightarrow> i < 2048 \<Longrightarrow>
   0 \<le> acc \<Longrightarrow> acc < B \<Longrightarrow> 0 \<le> V \<and> V < B * 2048 ^ length ws"
proof (induction ws arbitrary: acc B)
  case Nil
  then show ?case by simp
next
  case (Cons v vs)
  from Cons.prems(1) obtain i where i: "wm v = Some i"
    and rest: "UnmarshalEntropy_loop wm vs (acc * 2048 + int i) = Inr V"
    by (auto split: option.splits)
  from i Cons.prems(2) have "i < 2048"
    by blast
  with Cons.prems(3,4) have "0 \<le> acc * 2048 + int i" "acc * 2048 + int i < B * 2048"
    by simp_all
  with Cons.IH [OF rest Cons.prems(2), of "B * 2048"] show ?case
    by (simp add: mult.assoc)
qed

lemma UnmarshalEntropy_loop_error:
  "UnmarshalEntropy_loop wm ws acc = Inl err \<Longrightarrow> err = ErrMnemonicWordInvalid"
  by (induction ws arbitrary: acc) (auto split: option.splits)

lemma UnmarshalEntropy_loop_unknown:
  "wm v = None \<Longrightarrow> v \<in> set ws \<Longrightarrow>
   UnmarshalEntropy_loop wm ws acc = Inl ErrMnemonicWordInvalid"
  by (induction ws arbitrary: acc) (auto split: option.splits)

lemma UnmarshalEntropy_loop_known:
  "\<forall>w \<in> set ws. wm w \<noteq> None \<Longrightarrow> \<exists>V. UnmarshalEntropy_loop wm ws acc = Inr V"
  by (induction ws arbitrary: acc) (auto split: option.splits)

lemma UnmarshalEntropy_loop_Inr:
  "UnmarshalEntropy_loop wm ws acc = Inr V \<Longrightarrow>
   \<exists>indices. list_all2 (\<lambda>w i. wm w = Some i) ws indices \<and>
     V = foldl (\<lambda>a i. a * 2048 + int i) acc indices"
proof (induction ws arbitrary: acc)
  case Nil
  then show ?case by simp
next
  case (Cons v vs)
  from Cons.prems obtain i where i: "wm v = Some i"
    and rest: "UnmarshalEntropy_loop wm vs (acc * 2048 + int i) = Inr V"
    by (auto split: option.splits)
  from Cons.IH [OF rest] obtain indices
    where "list_all2 (\<lambda>w i. wm w = Some i) vs indices"
      and "V = foldl (\<lambda>a i. a * 2048 + int i) (acc * 2048 + int i) indices"
    by blast
  with i show ?case
    by (intro exI [of _ "i # indices"]) simp
qed

lemma UnmarshalEntropy_accepted:
  assumes "length wl \<le> 2048" and "UnmarshalEntropy sha (NewEncoder wl) m = Inr full"
  shows "\<exists>indices entropy.
    length (Fields m) \<in> {12, 15, 18, 21, 24} \<and>
    list_all2 (\<lambda>w i. wordMap (NewEncoder wl) w = Some i \<and> i < length wl \<and> wl ! i = w)
      (Fields m) indices \<and>
    length full = (length (Fields m) * 11 - length (Fields m) * 11 mod 32) div 8 + 1 \<and>
    full = padByteSlice (Bytes (foldl (\<lambda>a i. a * 2048 + int i) 0 indices)) (length full) \<and>
    SetBytes full = foldl (\<lambda>a i. a * 2048 + int i) 0 indices \<and>
    entropy = stripChecksumBits (8 * (length full - 1)) full \<and>
    length entropy + 1 = length full \<and>
    SetBytes full =
      SetBytes entropy * 2 ^ (length (Fields m) * 11 mod 32) + Checksum sha entropy \<and>
    0 \<le> Checksum sha entropy \<and> Checksum sha entropy < 2 ^ (length (Fields m) * 11 mod 32) \<and>
    full = padByteSlice (addChecksum sha entropy) (length full) \<and>
    full \<noteq> entropy"
proof -
  let ?e = "NewEncoder wl"
  have "\<not> (length (Fields m) mod 3 \<noteq> 0 \<or> length (Fields m) < 12 \<or> length (Fields m) > 24)"
  proof
    assume "length (Fields m) mod 3 \<noteq> 0 \<or> length (Fields m) < 12 \<or> length (Fields m) > 24"
    then have "UnmarshalEntropy sha ?e m = Inl ErrMnemonicLengthInvalid"
      by (rule UnmarshalEntropy_invalid_count)
    with assms(2) show False
      by simp
  qed
  then obtain k where count: "length (Fields m) = 3 * k" and k: "4 \<le> k" "k \<le> 8"
    unfolding valid_count by blast
  have kc: "k = 4 \<or> k = 5 \<or> k = 6 \<or> k = 7 \<or> k = 8"
    using k by linarith
  from assms(2) obtain V where loop: "UnmarshalEntropy_loop (wordMap ?e) (Fields m) 0 = Inr V"
    and check: "padByteSlice (Bytes V) (4 * k + 1) =
      padByteSlice (addChecksum sha (padByteSlice (Bytes (V div 2 ^ k)) (4 * k))) (4 * k + 1)"
    and full: "full = padByteSlice (Bytes V) (4 * k + 1)"
    unfolding UnmarshalEntropy_count [OF count k] by (auto split: sum.splits if_splits)
  from UnmarshalEntropy_loop_Inr [OF loop] obtain indices
    where known: "list_all2 (\<lambda>w i. wordMap ?e w = Some i) (Fields m) indices"
      and Vfold: "V = foldl (\<lambda>a i. a * 2048 + int i) 0 indices"
    by blast
  have words: "list_all2 (\<lambda>w i. wordMap ?e w = Some i \<and> i < length wl \<and> wl ! i = w)
      (Fields m) indices"
    using known by (rule list_all2_mono) (use wordMap_NewEncoder_Some in blast)
  define entropy where "entropy = padByteSlice (Bytes (V div 2 ^ k)) (4 * k)"
  have "\<forall>w i. wordMap ?e w = Some i \<longrightarrow> i < 2048"
    using wordMap_NewEncoder_Some assms(1) by fastforce
  with loop have V: "0 \<le> V" "V < 1 * 2048 ^ length (Fields m)"
    using UnmarshalEntropy_loop_bounds [of "wordMap ?e" "Fields m" 0 V 1] by simp_all
  have p33: "(2048::int) ^ (3 * k) = 2 ^ (32 * k) * 2 ^ k"
  proof -
    have "(2048::int) ^ (3 * k) = (2 ^ 11) ^ (3 * k)"
      by simp
    also have "\<dots> = 2 ^ (11 * (3 * k))"
      by (rule power_mult [symmetric])
    finally show ?thesis
      by (simp add: power_add [symmetric])
  qed
  have p256: "(256::int) ^ n = 2 ^ (8 * n)" for n
  proof -
    have "(256::int) ^ n = (2 ^ 8) ^ n"
      by simp
    then show ?thesis
      by (simp only: power_mult [symmetric])
  qed
  have Vfull: "SetBytes full = V"
    using V(1) by (simp add: full SetBytes_padByteSlice SetBytes_Bytes)
  have "V < 2 ^ (32 * k) * 2 ^ k"
    using V(2) by (simp add: count p33)
  then have raw_less: "V div 2 ^ k < 256 ^ (4 * k)"
    by (intro int_div_less) (simp_all add: p256)
  have raw_nonneg: "0 \<le> V div 2 ^ k"
    using V(1) by (simp add: pos_imp_zdiv_nonneg_iff)
  have len_entropy: "length entropy = 4 * k"
    using length_Bytes [OF raw_nonneg raw_less]
    by (simp add: entropy_def length_padByteSlice)
  have raw: "SetBytes entropy = V div 2 ^ k"
    using raw_nonneg by (simp add: entropy_def SetBytes_padByteSlice SetBytes_Bytes)
  have "2 ^ k \<le> (2::int) ^ 8"
    using k(2) by (intro power_increasing) simp_all
  then have "(2::int) ^ (32 * k) * 2 ^ k \<le> 2 ^ (32 * k) * 2 ^ 8"
    by (intro mult_left_mono) simp_all
  also have "\<dots> = 256 ^ (4 * k + 1)"
    by (simp add: p256 power_add)
  finally have "V < 256 ^ (4 * k + 1)"
    using \<open>V < 2 ^ (32 * k) * 2 ^ k\<close> by simp
  then have len_full: "length full = 4 * k + 1"
    using length_Bytes [OF V(1)] by (simp add: full length_padByteSlice)
  have cs: "length (Fields m) * 11 mod 32 = k"
    using kc by (auto simp add: count)
  have fb: "(length (Fields m) * 11 - k) div 8 = 4 * k"
    using kc by (auto simp add: count)
  have kk: "length entropy div 4 = k"
    by (simp add: len_entropy)
  have check': "full = padByteSlice (addChecksum sha entropy) (4 * k + 1)"
    using check by (simp only: full entropy_def)
  have sum_nonneg: "0 \<le> SetBytes entropy * 2 ^ k + Checksum sha entropy"
    using Checksum_bounds(1) [of entropy sha] SetBytes_nonneg [of entropy] k(2) by (simp add: kk)
  have "SetBytes full = SetBytes (padByteSlice (addChecksum sha entropy) (4 * k + 1))"
    using check' by simp
  also have "\<dots> = SetBytes entropy * 2 ^ k + Checksum sha entropy"
    using k(2) sum_nonneg by (simp add: SetBytes_padByteSlice addChecksum_closed kk SetBytes_Bytes)
  finally have val: "SetBytes full = SetBytes entropy * 2 ^ k + Checksum sha entropy" .
  have strip: "entropy = stripChecksumBits (8 * (length full - 1)) full"
    by (simp add: stripChecksumBits_def len_full Vfull entropy_def)
  have "full = padByteSlice (Bytes V) (length full)"
    by (subst len_full) (rule full)
  then have pad: "full = padByteSlice (Bytes (foldl (\<lambda>a i. a * 2048 + int i) 0 indices)) (length full)"
    by (simp only: Vfold)
  have fold: "SetBytes full = foldl (\<lambda>a i. a * 2048 + int i) 0 indices"
    by (simp only: Vfull Vfold)
  have ne: "full \<noteq> entropy"
    using len_full len_entropy by auto
  have c: "0 \<le> Checksum sha entropy" "Checksum sha entropy < 2 ^ k"
    using Checksum_bounds [of entropy sha] k(2) by (simp_all add: kk)
  have a: "length full = (length (Fields m) * 11 - length (Fields m) * 11 mod 32) div 8 + 1"
    by (simp add: cs fb len_full)
  have b: "length entropy + 1 = length full"
    by (simp add: len_full len_entropy)
  have d: "full = padByteSlice (addChecksum sha entropy) (length full)"
    by (subst len_full) (rule check')
  have n: "length (Fields m) \<in> {12, 15, 18, 21, 24}"
    using kc by (auto simp add: count)
  show ?thesis
    unfolding cs using n words a [unfolded cs] pad fold strip b val c d ne by blast
qed

lemma UnmarshalEntropy_loop_known_indices:
  "list_all2 (\<lambda>w i. wm w = Some i) ws indices \<Longrightarrow>
   UnmarshalEntropy_loop wm ws acc = Inr (foldl (\<lambda>a i. a * 2048 + int i) acc indices)"
  by (induction ws indices arbitrary: acc rule: list_all2_induct) simp_all

lemma foldl_indices_nonneg: "0 \<le> acc \<Longrightarrow> 0 \<le> foldl (\<lambda>a i. a * 2048 + int i) acc indices"
  by (induction indices arbitrary: acc) simp_all

lemma UnmarshalEntropy_accepts:
  assumes n: "length (Fields m) \<in> {12, 15, 18, 21, 24}"
    and known: "list_all2 (\<lambda>w i. wordMap e w = Some i) (Fields m) indices"
    and len: "length full = (length (Fields m) * 11 - length (Fields m) * 11 mod 32) div 8 + 1"
    and pad: "full = padByteSlice (Bytes (foldl (\<lambda>a i. a * 2048 + int i) 0 indices)) (length full)"
    and sum: "full = padByteSlice (addChecksum sha (stripChecksumBits (8 * (length full - 1)) full))
      (length full)"
  shows "UnmarshalEntropy sha e m = Inr full"
proof -
  let ?V = "foldl (\<lambda>a i. a * 2048 + int i) 0 indices"
  have "\<not> (length (Fields m) mod 3 \<noteq> 0 \<or> length (Fields m) < 12 \<or> length (Fields m) > 24)"
    using n by auto
  then obtain k where count: "length (Fields m) = 3 * k" and k: "4 \<le> k" "k \<le> 8"
    unfolding valid_count by blast
  have kc: "k = 4 \<or> k = 5 \<or> k = 6 \<or> k = 7 \<or> k = 8"
    using k by linarith
  have len_full: "length full = 4 * k + 1"
    using kc by (auto simp add: len count)
  have loop: "UnmarshalEntropy_loop (wordMap e) (Fields m) 0 = Inr ?V"
    using known by (rule UnmarshalEntropy_loop_known_indices)
  have full: "full = padByteSlice (Bytes ?V) (4 * k + 1)"
    using pad by (simp only: len_full)
  have "0 \<le> ?V"
    by (rule foldl_indices_nonneg) simp
  then have V: "SetBytes full = ?V"
    by (subst full) (simp add: SetBytes_padByteSlice SetBytes_Bytes)
  have strip: "stripChecksumBits (8 * (length full - 1)) full = padByteSlice (Bytes (?V div 2 ^ k)) (4 * k)"
    by (simp add: stripChecksumBits_def len_full V)
  have "full =
      padByteSlice (addChecksum sha (padByteSlice (Bytes (?V div 2 ^ k)) (4 * k))) (4 * k + 1)"
    using sum [unfolded strip] unfolding len_full .
  then have "padByteSlice (Bytes ?V) (4 * k + 1) =
      padByteSlice (addChecksum sha (padByteSlice (Bytes (?V div 2 ^ k)) (4 * k))) (4 * k + 1)"
    by (subst full [symmetric])
  with loop have "UnmarshalEntropy sha e m = Inr (padByteSlice (Bytes ?V) (4 * k + 1))"
    by (simp add: UnmarshalEntropy_count [OF count k])
  then show ?thesis
    by (subst full)
qed

subsection \<open>The sample word list\<close>

lemma of_char_sample_letter: "k < 16 \<Longrightarrow> (of_char (sample_letter k) :: nat) = 97 + k"
  by (simp add: sample_letter_def)

lemma sample_letter_inj:
  assumes "a < 16" and "b < 16" and "sample_letter a = sample_letter b"
  shows "a = b"
proof -
  have "(of_char (sample_letter a) :: nat) = of_char (sample_letter b)"
    using assms(3) by (rule arg_cong)
  then have "97 + a = 97 + b"
    by (simp only: of_char_sample_letter [OF assms(1)] of_char_sample_letter [OF assms(2)])
  then show ?thesis
    by simp
qed

lemma sample_word_inj:
  assumes "i < 2048" "j < 2048" "sample_word i = sample_word j"
  shows "i = j"
proof -
  have "i div 256 < 16" "j div 256 < 16"
    using assms(1,2) by simp_all
  with assms(3) have a: "i div 256 = j div 256"
    by (auto simp add: sample_word_def intro: sample_letter_inj)
  have "i div 16 mod 16 = j div 16 mod 16"
    using assms(3) by (auto simp add: sample_word_def intro: sample_letter_inj)
  moreover have "i mod 16 = j mod 16"
    using assms(3) by (auto simp add: sample_word_def intro: sample_letter_inj)
  moreover have "n = n div 256 * 256 + n div 16 mod 16 * 16 + n mod 16" for n :: nat
  proof -
    have "n div 256 = n div 16 div 16"
      by (simp add: div_mult2_eq [symmetric])
    moreover have "n div 16 * 16 + n mod 16 = n"
      by simp
    moreover have "n div 16 div 16 * 16 + n div 16 mod 16 = n div 16"
      by simp
    ultimately show ?thesis
      by linarith
  qed
  ultimately show ?thesis
    using a by metis
qed

lemma length_sample_wordList: "length sample_wordList = 2048"
  by (simp only: sample_wordList_def length_map length_upt diff_zero)

lemma distinct_sample_wordList: "distinct sample_wordList"
proof -
  have "inj_on sample_word {0..<2048}"
  proof (rule inj_onI)
    fix i j :: nat
    assume "i \<in> {0..<2048}" and "j \<in> {0..<2048}"
    then have "i < 2048" and "j < 2048"
      by (simp_all only: atLeastLessThan_iff)
    moreover assume "sample_word i = sample_word j"
    ultimately show "i = j"
      by (rule sample_word_inj)
  qed
  then show ?thesis
    by (simp only: sample_wordList_def distinct_map distinct_upt set_upt simp_thms)
qed

lemma nth_sample_wordList: "i < 2048 \<Longrightarrow> sample_wordList ! i = sample_word i"
proof -
  assume i: "i < 2048"
  then have "i < length [0..<2048]"
    by (simp only: length_upt diff_zero)
  then have "map sample_word [0..<2048] ! i = sample_word ([0..<2048] ! i)"
    by (rule nth_map)
  moreover have "0 + i < 2048"
    using i by simp
  then have "[0..<2048] ! i = 0 + i"
    by (rule nth_upt)
  ultimately show ?thesis
    by (simp only: sample_wordList_def add_0)
qed

lemma Fields_sample_word: "i < 2048 \<Longrightarrow> Fields (sample_word i) = [sample_word i]"
proof -
  assume "i < 2048"
  then have "i div 256 < 16"
    by simp
  moreover have "(of_char (sample_letter k) :: nat) < 128 \<and> \<not> IsSpace (of_char (sample_letter k))"
    if "k < 16" for k
    using that by (simp add: IsSpace_def of_char_sample_letter)
  ultimately have "\<forall>c \<in> set (sample_word i). (of_char c :: nat) < 128 \<and> \<not> IsSpace (of_char c)"
    by (simp add: sample_word_def)
  then show ?thesis
    by (simp add: Fields_def fields_scan_ascii sample_word_def)
qed

lemma Fields_sample_wordList: "\<forall>w \<in> set sample_wordList. Fields w = [w]"
proof
  fix w
  assume "w \<in> set sample_wordList"
  then obtain i where "i < 2048" and "w = sample_word i"
    unfolding in_set_conv_nth length_sample_wordList
    using nth_sample_wordList by auto
  then show "Fields w = [w]"
    by (simp add: Fields_sample_word)
qed

lemma Checksum_sample: "Checksum sample_sha256 (replicate 16 0) = 3"
  by (simp add: Checksum_def sample_sha256_def drop_bit_eq_div)

lemma SetBytes_zero16: "SetBytes (replicate 16 0) = 0"
  using SetBytes_zeros [of 16 "[]"] by (simp add: SetBytes_Nil)

lemma wordIndices_sample: "wordIndices 12 3 = [0, 0, 0, 0, 0, 0, 0, 0, 0, 0, 0, 3]"
  by code_simp

lemma sample_words: "sample_word 0 = ''aaa''" "sample_word 3 = ''aad''"
  by code_simp+

lemma MarshalEntropy_sample:
  "MarshalEntropy sample_sha256 (NewEncoder sample_wordList) (replicate 16 0) =
    Inr ''aaa aaa aaa aaa aaa aaa aaa aaa aaa aaa aaa aad''"
proof -
  have "MarshalEntropy sample_sha256 (NewEncoder sample_wordList) (replicate 16 0) =
      Inr (Join (map ((!) sample_wordList) (wordIndices (3 * 4)
        (SetBytes (replicate 16 0) * 2 ^ 4 + Checksum sample_sha256 (replicate 16 0)))) '' '')"
    by (rule roundtrip(1))
      (simp_all add: length_sample_wordList distinct_sample_wordList Fields_sample_wordList)
  then show ?thesis
    by (simp add: Checksum_sample SetBytes_zero16 wordIndices_sample nth_sample_wordList sample_words)
qed

lemma UnmarshalEntropy_small:
  "UnmarshalEntropy sample_sha256 (NewEncoder small_wordList) sample_mnemonic =
   Inr [0, 0, 0, 0, 0, 0, 0, 0, 0, 0, 0, 0, 0, 0, 0, 0, 3]"
  by code_simp

lemma MarshalEntropy_words_length:
  assumes "8 * length entropy \<in> {128, 160, 192, 224, 256}"
    and "MarshalEntropy_words sha e entropy = Inr words"
  shows "length words = (8 * length entropy + 8 * length entropy div 32) div 11"
    and "set words \<subseteq> set (wordList e)"
proof -
  obtain k where len: "length entropy = 4 * k" "4 \<le> k" "k \<le> 8"
    using assms(1) by (auto simp add: valid_length)
  let ?ks = "wordIndices (3 * k) (SetBytes entropy * 2 ^ k + Checksum sha entropy)"
  have idx: "\<forall>i \<in> set ?ks. i < length (wordList e)" and words: "words = map ((!) (wordList e)) ?ks"
    using assms(2) unfolding MarshalEntropy_words_result [OF len] by (auto split: if_splits)
  have "(8 * (4 * k) + 8 * (4 * k) div 32) div 11 = 3 * k"
    by presburger
  then show "length words = (8 * length entropy + 8 * length entropy div 32) div 11"
    by (simp add: words length_wordIndices len(1))
  show "set words \<subseteq> set (wordList e)"
    using idx by (auto simp add: words)
qed

lemma MarshalEntropy_words_invalid:
  "8 * length entropy \<notin> {128, 160, 192, 224, 256} \<Longrightarrow>
   MarshalEntropy_words sha e entropy = Inl ErrEntropyLengthInvalid"
proof -
  assume "8 * length entropy \<notin> {128, 160, 192, 224, 256}"
  then have "validateEntropyBitSize (int (length entropy * 8)) \<noteq> None"
    by (simp only: validateEntropyBitSize_nat mult.commute [of "length entropy"] not_False_eq_True)
  then have "validateEntropyBitSize (int (length entropy * 8)) = Some ErrEntropyLengthInvalid"
    by (simp add: validateEntropyBitSize_def split: if_splits)
  then show ?thesis
    by (simp add: MarshalEntropy_words_def Let_def)
qed

lemma MarshalEntropy_words_valid:
  "8 * length entropy \<in> {128, 160, 192, 224, 256} \<Longrightarrow>
   MarshalEntropy_words sha e entropy \<noteq> Inl ErrEntropyLengthInvalid"
proof -
  assume "8 * length entropy \<in> {128, 160, 192, 224, 256}"
  then obtain k where len: "length entropy = 4 * k" "4 \<le> k" "k \<le> 8"
    by (auto simp add: valid_length)
  show ?thesis
    by (simp add: MarshalEntropy_words_result [OF len])
qed

lemma sample_counts:
  "length (Fields eleven_words) = 11" "length (Fields thirteen_words) = 13"
  "length (Fields twentyfive_words) = 25" "length (Fields sample_mnemonic) = 12"
  by code_simp+

lemma Fields_unknown:
  "Fields unknown_abc = [''zero''] @ ''abc'' # [''zero'', ''zero'', ''zero'', ''zero'', ''zero'', ''zero'', ''zero'', ''zero'', ''zero'', ''three'']"
  "wordMap (NewEncoder small_wordList) ''abc'' = None"
  by code_simp+

lemma NewEntropy_valid:
  assumes "bitSize \<in> {128, 160, 192, 224, 256}"
  shows "\<exists>buf. NewEntropy rnd bitSize = (Some buf, snd (rnd (nat (bitSize div 8)))) \<and>
    length buf = nat (bitSize div 8) \<and>
    (length (fst (rnd (nat (bitSize div 8)))) = nat (bitSize div 8) \<longrightarrow> buf = fst (rnd (nat (bitSize div 8))))"
proof -
  have v: "validateEntropyBitSize bitSize = None"
    using assms by (auto simp add: validateEntropyBitSize_def signed_modulo_int_def)
  have d: "bitSize sdiv 8 = bitSize div 8"
    using assms by (auto simp add: signed_divide_int_def)
  show ?thesis
    by (simp add: NewEntropy_def v d Let_def rand_Read_def)
qed

lemma SetBytes_ones16: "SetBytes (replicate 16 255) = 340282366920938463463374607431768211455"
  by code_simp

lemma wordIndices_second: "nat ((E div 2048) AND 2047) \<in> set (wordIndices (Suc (Suc n)) E)"
  by simp

lemma MarshalEntropy_short_wordList:
  assumes "length (wordList e) < 2048"
  shows "MarshalEntropy sha e (replicate 16 255) = Inl PanicIndexOutOfRange"
proof -
  let ?S = "SetBytes (replicate 16 255)"
  let ?c = "Checksum sha (replicate 16 255)"
  let ?X = "?S * 2 ^ 4 + ?c"
  have c: "0 \<le> ?c" "?c < 2 ^ 4"
    using Checksum_bounds [of "replicate 16 255" sha] by simp_all
  have "?X div (16 * 128) = ?X div 16 div 128"
    by (rule zdiv_zmult2_eq) simp
  moreover have "?X div 16 = ?S"
    using c by simp
  ultimately have "?X div 2048 = ?S div 128"
    by simp
  then have "(?X div 2048) AND 2047 = 2047"
    by (simp add: and_2047 SetBytes_ones16)
  then have "nat ((?X div 2048) AND 2047) = 2047"
    by simp
  moreover have "(12::nat) = Suc (Suc 10)"
    by simp
  ultimately have "2047 \<in> set (wordIndices (3 * 4) ?X)"
    using wordIndices_second [of ?X 10] by simp
  moreover have "\<not> 2047 < length (wordList e)"
    using assms by simp
  ultimately have "\<not> (\<forall>i \<in> set (wordIndices (3 * 4) ?X). i < length (wordList e))"
    by blast
  then have "MarshalEntropy_words sha e (replicate 16 255) = Inl PanicIndexOutOfRange"
    by (subst MarshalEntropy_words_result [of _ 4]) simp_all
  then show ?thesis
    by (simp add: MarshalEntropy_def)
qed

lemma MarshalEntropy_long_wordList:
  assumes "2048 \<le> length (wordList e)" and "8 * length entropy \<in> {128, 160, 192, 224, 256}"
  shows "\<exists>mnemonic. MarshalEntropy sha e entropy = Inr mnemonic"
proof -
  obtain k where len: "length entropy = 4 * k" "4 \<le> k" "k \<le> 8"
    using assms(2) by (auto simp add: valid_length)
  have "\<forall>i \<in> set (wordIndices (3 * k) (SetBytes entropy * 2 ^ k + Checksum sha entropy)).
      i < length (wordList e)"
    using wordIndices_less assms(1) by fastforce
  then show ?thesis
    by (simp add: MarshalEntropy_def MarshalEntropy_words_result [OF len])
qed

lemma DecodeRune_append:
  assumes "w \<noteq> []" and "\<not> continuation c"
  shows "DecodeRuneInString (w @ c # rest) = DecodeRuneInString w"
proof -
  have c: "(of_char c :: nat) < 128 \<or> 191 < (of_char c :: nat)"
    using assms(2) by (auto simp add: continuation_def)
  consider c0 where "w = [c0]"
    | c0 c1 where "w = [c0, c1]"
    | c0 c1 c2 where "w = [c0, c1, c2]"
    | c0 c1 c2 c3 w' where "w = c0 # c1 # c2 # c3 # w'"
    using assms(1) by (metis list.exhaust)
  then show ?thesis
  proof cases
    case 1
    with c show ?thesis by (auto simp add: DecodeRuneInString_def Let_def)
  next
    case 2
    with c show ?thesis by (auto simp add: DecodeRuneInString_def Let_def)
  next
    case 3
    with c show ?thesis by (auto simp add: DecodeRuneInString_def Let_def)
  next
    case 4
    then show ?thesis by (simp add: DecodeRuneInString_def Let_def)
  qed
qed

lemma not_IsSpace_RuneError: "\<not> IsSpace RuneError"
  by (simp add: IsSpace_def RuneError_def)

lemma DecodeRune_space:
  assumes "IsSpace (fst (DecodeRuneInString s))"
  shows "DecodeRuneInString (s @ rest) = DecodeRuneInString s" and "\<not> continuation (hd s)"
proof -
  have ne: "s \<noteq> []"
    using assms not_IsSpace_RuneError by (auto simp add: DecodeRuneInString_def)
  then consider c0 where "s = [c0]"
    | c0 c1 where "s = [c0, c1]"
    | c0 c1 c2 where "s = [c0, c1, c2]"
    | c0 c1 c2 c3 w' where "s = c0 # c1 # c2 # c3 # w'"
    by (metis list.exhaust)
  then have "DecodeRuneInString (s @ rest) = DecodeRuneInString s \<and> \<not> continuation (hd s)"
  proof cases
    case 1
    with assms not_IsSpace_RuneError show ?thesis
      by (auto simp add: DecodeRuneInString_def Let_def continuation_def split: if_splits)
  next
    case 2
    with assms not_IsSpace_RuneError show ?thesis
      by (auto simp add: DecodeRuneInString_def Let_def continuation_def split: if_splits)
  next
    case 3
    with assms not_IsSpace_RuneError show ?thesis
      by (auto simp add: DecodeRuneInString_def Let_def continuation_def split: if_splits)
  next
    case 4
    with assms not_IsSpace_RuneError show ?thesis
      by (auto simp add: DecodeRuneInString_def Let_def continuation_def split: if_splits)
  qed
  then show "DecodeRuneInString (s @ rest) = DecodeRuneInString s" and "\<not> continuation (hd s)"
    by simp_all
qed

lemma fields_scan_nonempty: "cur \<noteq> [] \<Longrightarrow> fields_scan cur s \<noteq> []"
proof (induction cur s rule: fields_scan.induct)
  case (1 cur s)
  show ?case
  proof (cases "s = []")
    case True
    with "1.prems" show ?thesis by (simp add: fields_scan_Nil)
  next
    case False
    show ?thesis
    proof (cases "IsSpace (fst (DecodeRuneInString s))")
      case True
      with False "1.prems" show ?thesis by (simp add: fields_scan_space)
    next
      case notsp: False
      with False "1.IH"(3) [OF False refl refl notsp] "1.prems" show ?thesis
        by (simp add: fields_scan_other)
    qed
  qed
qed

lemma onlySpace_decode:
  assumes "onlySpace s" and "s \<noteq> []"
  shows "IsSpace (fst (DecodeRuneInString s))"
    and "onlySpace (drop (snd (DecodeRuneInString s)) s)"
proof -
  have scan: "fields_scan [] s = []"
    using assms(1) by (simp add: onlySpace_def Fields_def)
  show sp: "IsSpace (fst (DecodeRuneInString s))"
  proof (rule ccontr)
    assume notsp: "\<not> IsSpace (fst (DecodeRuneInString s))"
    have "take (snd (DecodeRuneInString s)) s \<noteq> []"
      using assms(2) DecodeRune_width_pos [of s] by simp
    then have "fields_scan ([] @ take (snd (DecodeRuneInString s)) s)
        (drop (snd (DecodeRuneInString s)) s) \<noteq> []"
      by (intro fields_scan_nonempty) simp
    with scan notsp assms(2) show False
      by (simp add: fields_scan_other [of s "[]"])
  qed
  with scan assms(2) show "onlySpace (drop (snd (DecodeRuneInString s)) s)"
    by (simp add: onlySpace_def Fields_def fields_scan_space)
qed

lemma fields_scan_space_then:
  "onlySpace sep \<Longrightarrow> sep \<noteq> [] \<Longrightarrow>
   fields_scan cur (sep @ rest) =
     (if cur = [] then fields_scan [] rest else cur # fields_scan [] rest)"
proof (induction sep arbitrary: cur rule: length_induct)
  case (1 sep)
  let ?k = "snd (DecodeRuneInString sep)"
  have sp: "IsSpace (fst (DecodeRuneInString sep))" and tl: "onlySpace (drop ?k sep)"
    using "1.prems" by (rule onlySpace_decode)+
  have dec: "DecodeRuneInString (sep @ rest) = DecodeRuneInString sep"
    using sp by (rule DecodeRune_space)
  have k: "0 < ?k" "?k \<le> length sep"
    using "1.prems"(2) by (simp_all add: DecodeRune_width_pos DecodeRune_width_le)
  have step: "fields_scan cur (sep @ rest) =
      (if cur = [] then fields_scan [] (drop ?k sep @ rest)
       else cur # fields_scan [] (drop ?k sep @ rest))"
    using sp k "1.prems"(2) by (subst fields_scan_space) (simp_all add: dec)
  show ?case
  proof (cases "drop ?k sep = []")
    case True
    with step show ?thesis by simp
  next
    case False
    have "length (drop ?k sep) < length sep"
      using k "1.prems"(2) by simp
    with "1.IH" tl False
    have "fields_scan [] (drop ?k sep @ rest) = fields_scan [] rest"
      by (metis (full_types))
    with step show ?thesis by simp
  qed
qed

lemma fields_scan_word_then:
  "fields_scan cur w = [cur @ w] \<Longrightarrow> rest = [] \<or> \<not> continuation (hd rest) \<Longrightarrow>
   fields_scan cur (w @ rest) = fields_scan (cur @ w) rest"
proof (induction cur w rule: fields_scan.induct)
  case (1 cur w)
  show ?case
  proof (cases "w = []")
    case True
    then show ?thesis by simp
  next
    case False
    let ?r = "fst (DecodeRuneInString w)" and ?k = "snd (DecodeRuneInString w)"
    have dec: "DecodeRuneInString (w @ rest) = DecodeRuneInString w"
    proof (cases rest)
      case Nil
      then show ?thesis by simp
    next
      case (Cons c rest')
      with "1.prems"(2) have "\<not> continuation c" by simp
      with False show ?thesis
        unfolding Cons by (rule DecodeRune_append)
    qed
    have k: "0 < ?k" "?k \<le> length w"
      using False by (simp_all add: DecodeRune_width_pos DecodeRune_width_le)
    show ?thesis
    proof (cases "IsSpace ?r")
      case True
      show ?thesis
      proof (cases "cur = []")
        case True
        with \<open>IsSpace ?r\<close> False "1.prems"(1) have "fields_scan [] (drop ?k w) = [w]"
          by (simp add: fields_scan_space)
        with fields_scan_size [of "[]" "drop ?k w"] have "length w \<le> length w - ?k"
          by simp
        with k False have False
          by (cases w) simp_all
        then show ?thesis ..
      next
        case cur: False
        with \<open>IsSpace ?r\<close> False "1.prems"(1) have "w = []"
          by (simp add: fields_scan_space)
        with False show ?thesis by simp
      qed
    next
      case notsp: False
      have "fields_scan (cur @ take ?k w) (drop ?k w) = [(cur @ take ?k w) @ drop ?k w]"
        using "1.prems"(1) False notsp by (simp add: fields_scan_other)
      then have "fields_scan (cur @ take ?k w) (drop ?k w @ rest) =
          fields_scan ((cur @ take ?k w) @ drop ?k w) rest"
        using "1.prems"(2) by (rule "1.IH"(3) [OF False refl refl notsp])
      moreover have "fields_scan cur (w @ rest) =
          fields_scan (cur @ take ?k w) (drop ?k w @ rest)"
        using notsp k False by (subst fields_scan_other) (simp_all add: dec)
      ultimately show ?thesis
        by simp
    qed
  qed
qed

lemma onlySpace_hd: "onlySpace s \<Longrightarrow> s = [] \<or> \<not> continuation (hd s)"
  using onlySpace_decode(1) [of s] DecodeRune_space(2) [of s] by blast

lemma isWord_nonempty: "isWord w \<Longrightarrow> w \<noteq> []"
  by (auto simp add: isWord_def Fields_def fields_scan_Nil)

lemma fields_scan_lead:
  "onlySpace lead \<Longrightarrow> fields_scan [] (lead @ rest) = fields_scan [] rest"
  using fields_scan_space_then [of lead "[]" rest] by (cases "lead = []") simp_all

lemma spell_hd:
  "wellSpaced ((w, sp) # rest) \<Longrightarrow> spell sp rest = [] \<or> \<not> continuation (hd (spell sp rest))"
proof (cases rest)
  case Nil
  assume "wellSpaced ((w, sp) # rest)"
  with Nil show ?thesis
    using onlySpace_hd [of sp] by simp
next
  case (Cons p rest')
  assume "wellSpaced ((w, sp) # rest)"
  with Cons have "onlySpace sp" "sp \<noteq> []"
    by simp_all
  with Cons show ?thesis
    using onlySpace_hd [of sp] by (cases p) simp
qed

lemma Fields_spell:
  "onlySpace lead \<Longrightarrow> wellSpaced ps \<Longrightarrow> Fields (spell lead ps) = map fst ps"
proof (induction ps arbitrary: lead)
  case Nil
  then show ?case
    by (simp add: onlySpace_def)
next
  case (Cons p ps)
  obtain w sp where p: "p = (w, sp)"
    by (cases p)
  let ?R = "spell sp ps"
  have w: "isWord w" and sp: "onlySpace sp" and ps: "wellSpaced ps"
    using Cons.prems(2) unfolding p by (cases ps; simp)+
  have "fields_scan [] w = [[] @ w]"
    using w by (simp add: isWord_def Fields_def)
  then have "fields_scan [] (w @ ?R) = fields_scan ([] @ w) ?R"
    using spell_hd [OF Cons.prems(2) [unfolded p]] by (rule fields_scan_word_then)
  then have start: "fields_scan [] (lead @ w @ ?R) = fields_scan w ?R"
    using Cons.prems(1) by (simp add: fields_scan_lead)
  have wne: "w \<noteq> []"
    using w by (rule isWord_nonempty)
  have IH: "fields_scan [] ?R = map fst ps"
    using Cons.IH [OF sp ps] by (simp add: Fields_def)
  have "fields_scan w ?R = w # map fst ps"
  proof (cases ps)
    case Nil
    show ?thesis
    proof (cases "sp = []")
      case True
      with Nil wne show ?thesis
        by (simp add: fields_scan_Nil)
    next
      case False
      with sp have "fields_scan w (sp @ []) = (if w = [] then fields_scan [] [] else w # fields_scan [] [])"
        by (rule fields_scan_space_then)
      with Nil wne show ?thesis
        by (simp add: fields_scan_Nil)
    qed
  next
    case (Cons p' ps')
    obtain w' sp' where p': "p' = (w', sp')"
      by (cases p')
    have ne: "sp \<noteq> []"
      using Cons.prems(2) unfolding p Cons by (cases p') simp
    let ?X = "w' @ spell sp' ps'"
    have R: "?R = sp @ ?X"
      by (simp add: Cons p')
    have "fields_scan w (sp @ ?X) = w # fields_scan [] ?X"
      using sp ne wne by (simp add: fields_scan_space_then)
    moreover have "fields_scan [] (sp @ ?X) = fields_scan [] ?X"
      using sp by (rule fields_scan_lead)
    ultimately show ?thesis
      using IH by (simp only: R)
  qed
  with start show ?case
    by (simp add: p Fields_def)
qed

lemma sample_spellings:
  "onlySpace []" "wellSpaced single_spaced"
  "onlySpace [CHR 0x09, CHR 0x20]" "wellSpaced widely_spaced"
  by code_simp+

lemma sample_spellings_words:
  "map fst single_spaced = map fst widely_spaced"
  "spell [] single_spaced = sample_mnemonic"
  "spell [CHR 0x09, CHR 0x20] widely_spaced \<noteq> sample_mnemonic"
  by (simp_all add: single_spaced_def widely_spaced_def sample_mnemonic_def)

section \<open>The claims\<close>

text \<open>
  Claim C1.  For every entropy of 128, 160, 192, 224 or 256 bits and every word list of
  2048 distinct words (a word being a string that \<open>strings.Fields\<close> leaves as one field:
  not empty, no white space), \<open>MarshalEntropy\<close> returns a mnemonic, \<open>UnmarshalEntropy\<close>
  accepts it, and the value it returns, divided by \<open>2 ^ (bits div 32)\<close>, is the entropy:
  as an integer, and as the byte sequence \<open>stripChecksumBits\<close> gives.  The hash function
  is arbitrary.
\<close>

theorem marshal_unmarshal_roundtrip:
  assumes "8 * length entropy \<in> {128, 160, 192, 224, 256}"
    and "length wl = 2048" and "distinct wl" and "\<forall>w \<in> set wl. Fields w = [w]"
  shows "\<exists>mnemonic full.
    MarshalEntropy sha (NewEncoder wl) entropy = Inr mnemonic \<and>
    UnmarshalEntropy sha (NewEncoder wl) mnemonic = Inr full \<and>
    SetBytes full div 2 ^ (8 * length entropy div 32) = SetBytes entropy \<and>
    stripChecksumBits (8 * length entropy) full = entropy"
proof -
  obtain k where len: "length entropy = 4 * k" "4 \<le> k" "k \<le> 8"
    using assms(1) by (auto simp add: valid_length)
  define X where "X = SetBytes entropy * 2 ^ k + Checksum sha entropy"
  define words where "words = map ((!) wl) (wordIndices (3 * k) X)"
  define full where "full = padByteSlice (Bytes X) (4 * k + 1)"
  have X: "0 \<le> X" "X div 2 ^ k = SetBytes entropy"
    unfolding X_def using len(1,3) by (rule checksummed_bounds)+
  have "MarshalEntropy sha (NewEncoder wl) entropy = Inr (Join words '' '')"
    and "UnmarshalEntropy sha (NewEncoder wl) (Join words '' '') = Inr full"
    unfolding words_def X_def full_def using len assms(2-4) by (rule roundtrip)+
  moreover have "SetBytes full = X"
    using X(1) by (simp add: full_def SetBytes_padByteSlice SetBytes_Bytes)
  moreover have e: "8 * length entropy div 32 = k" "8 * length entropy div 8 = length entropy"
    using len(1) by simp_all
  ultimately show ?thesis
    using padByteSlice_Bytes_SetBytes [of entropy]
    by (simp add: stripChecksumBits_def e X(2))
qed

text \<open>
  The instance of C1 at sixteen zero bytes and the sample word list: the mnemonic is
  eleven times the word of index 0 and once the word of index 3.
\<close>

theorem marshal_unmarshal_roundtrip_witness:
  "\<exists>full.
    MarshalEntropy sample_sha256 (NewEncoder sample_wordList) (replicate 16 0) =
      Inr ''aaa aaa aaa aaa aaa aaa aaa aaa aaa aaa aaa aad'' \<and>
    UnmarshalEntropy sample_sha256 (NewEncoder sample_wordList)
      ''aaa aaa aaa aaa aaa aaa aaa aaa aaa aaa aaa aad'' = Inr full \<and>
    SetBytes full div 2 ^ 4 = SetBytes (replicate 16 0) \<and>
    stripChecksumBits 128 full = replicate 16 0"
  using marshal_unmarshal_roundtrip [of "replicate 16 0" sample_wordList sample_sha256]
  by (simp add: length_sample_wordList distinct_sample_wordList Fields_sample_wordList
      MarshalEntropy_sample)

text \<open>
  Claim C2.  For an encoder built from a word list of at most 2048 entries,
  \<open>UnmarshalEntropy\<close> returns the slice \<open>full\<close> for a mnemonic exactly when the mnemonic
  has 12, 15, 18, 21 or 24 fields, every field is a word of the list, and \<open>full\<close> is
  the following slice.  Its value is the number whose digits in base 2048 are the
  indices of the words, first word first.  It has
  \<open>(wordCount * 11 - wordCount * 11 mod 32) div 8 + 1\<close> bytes, the value being padded on
  the left with zero bytes.  Stripped of its \<open>wordCount * 11 mod 32\<close> low bits it is the
  entropy, of one byte less, and those low bits are the checksum of that entropy, the
  first bits of its digest: the slice is the result of \<open>addChecksum\<close> on the entropy,
  padded, and not the entropy.
\<close>

theorem unmarshal_returns_checksummed_entropy:
  assumes "length wl \<le> 2048"
  shows "UnmarshalEntropy sha (NewEncoder wl) m = Inr full \<longleftrightarrow>
    (\<exists>indices entropy.
      length (Fields m) \<in> {12, 15, 18, 21, 24} \<and>
      list_all2 (\<lambda>w i. wordMap (NewEncoder wl) w = Some i \<and> i < length wl \<and> wl ! i = w)
        (Fields m) indices \<and>
      length full = (length (Fields m) * 11 - length (Fields m) * 11 mod 32) div 8 + 1 \<and>
      full = padByteSlice (Bytes (foldl (\<lambda>a i. a * 2048 + int i) 0 indices)) (length full) \<and>
      SetBytes full = foldl (\<lambda>a i. a * 2048 + int i) 0 indices \<and>
      entropy = stripChecksumBits (8 * (length full - 1)) full \<and>
      length entropy + 1 = length full \<and>
      SetBytes full =
        SetBytes entropy * 2 ^ (length (Fields m) * 11 mod 32) + Checksum sha entropy \<and>
      0 \<le> Checksum sha entropy \<and> Checksum sha entropy < 2 ^ (length (Fields m) * 11 mod 32) \<and>
      full = padByteSlice (addChecksum sha entropy) (length full) \<and>
      full \<noteq> entropy)"
    (is "?accepted \<longleftrightarrow> ?shape")
proof
  assume ?accepted
  with assms show ?shape
    by (rule UnmarshalEntropy_accepted)
next
  assume ?shape
  then obtain indices entropy
    where "length (Fields m) \<in> {12, 15, 18, 21, 24}"
      and words: "list_all2 (\<lambda>w i. wordMap (NewEncoder wl) w = Some i \<and> i < length wl \<and> wl ! i = w)
        (Fields m) indices"
      and "length full = (length (Fields m) * 11 - length (Fields m) * 11 mod 32) div 8 + 1"
      and "full = padByteSlice (Bytes (foldl (\<lambda>a i. a * 2048 + int i) 0 indices)) (length full)"
      and "entropy = stripChecksumBits (8 * (length full - 1)) full"
      and "full = padByteSlice (addChecksum sha entropy) (length full)"
    by blast
  moreover from words have "list_all2 (\<lambda>w i. wordMap (NewEncoder wl) w = Some i) (Fields m) indices"
    by (rule list_all2_mono) simp
  ultimately show ?accepted
    by (intro UnmarshalEntropy_accepts [of m "NewEncoder wl" indices full sha]) simp_all
qed

text \<open>
  The instance of C2 at the sample mnemonic: seventeen bytes, sixteen of entropy and
  the checksum 3 in the last one, the value being that of the twelve indices.
\<close>

theorem unmarshal_returns_checksummed_entropy_witness:
  "UnmarshalEntropy sample_sha256 (NewEncoder small_wordList) sample_mnemonic =
     Inr [0, 0, 0, 0, 0, 0, 0, 0, 0, 0, 0, 0, 0, 0, 0, 0, 3] \<and>
   (\<exists>indices entropy.
      list_all2 (\<lambda>w i. wordMap (NewEncoder small_wordList) w = Some i \<and>
          i < length small_wordList \<and> small_wordList ! i = w)
        (Fields sample_mnemonic) indices \<and>
      SetBytes [0, 0, 0, 0, 0, 0, 0, 0, 0, 0, 0, 0, 0, 0, 0, 0, 3] =
        foldl (\<lambda>a i. a * 2048 + int i) 0 indices \<and>
      length entropy = 16 \<and>
      entropy = stripChecksumBits 128 [0, 0, 0, 0, 0, 0, 0, 0, 0, 0, 0, 0, 0, 0, 0, 0, 3] \<and>
      SetBytes [0, 0, 0, 0, 0, 0, 0, 0, 0, 0, 0, 0, 0, 0, 0, 0, 3] =
        SetBytes entropy * 2 ^ 4 + Checksum sample_sha256 entropy \<and>
      [0, 0, 0, 0, 0, 0, 0, 0, 0, 0, 0, 0, 0, 0, 0, 0, 3] =
        padByteSlice (addChecksum sample_sha256 entropy) 17)"
proof -
  define full :: "byte list" where "full = [0, 0, 0, 0, 0, 0, 0, 0, 0, 0, 0, 0, 0, 0, 0, 0, 3]"
  have len: "length full = 17"
    by (simp add: full_def)
  have run: "UnmarshalEntropy sample_sha256 (NewEncoder small_wordList) sample_mnemonic = Inr full"
    by (simp only: full_def UnmarshalEntropy_small)
  have "length small_wordList \<le> 2048"
    by (simp add: small_wordList_def)
  from unmarshal_returns_checksummed_entropy [OF this, THEN iffD1, OF run]
  obtain indices entropy
    where "list_all2 (\<lambda>w i. wordMap (NewEncoder small_wordList) w = Some i \<and>
          i < length small_wordList \<and> small_wordList ! i = w) (Fields sample_mnemonic) indices"
    and "SetBytes full = foldl (\<lambda>a i. a * 2048 + int i) 0 indices"
    and "entropy = stripChecksumBits (8 * (length full - 1)) full"
    and "length entropy + 1 = length full"
    and "SetBytes full = SetBytes entropy * 2 ^ (length (Fields sample_mnemonic) * 11 mod 32) +
      Checksum sample_sha256 entropy"
    and "full = padByteSlice (addChecksum sample_sha256 entropy) (length full)"
    by blast
  then have "list_all2 (\<lambda>w i. wordMap (NewEncoder small_wordList) w = Some i \<and>
          i < length small_wordList \<and> small_wordList ! i = w) (Fields sample_mnemonic) indices \<and>
      SetBytes full = foldl (\<lambda>a i. a * 2048 + int i) 0 indices \<and>
      length entropy = 16 \<and>
      entropy = stripChecksumBits 128 full \<and>
      SetBytes full = SetBytes entropy * 2 ^ 4 + Checksum sample_sha256 entropy \<and>
      full = padByteSlice (addChecksum sample_sha256 entropy) 17"
    by (simp add: len sample_counts)
  then show ?thesis
    unfolding full_def [symmetric] using run by blast
qed

text \<open>
  Claim C3.  \<open>NewSeed\<close> fails exactly when \<open>UnmarshalEntropy\<close> fails on the mnemonic, and
  then with the same error; otherwise it returns the key that the derivation function
  gives for the bytes of the mnemonic string as supplied, the salt \<open>mnemonic\<close> followed
  by the passphrase, 2048 iterations and a key length of 64 bytes.  The value that
  \<open>UnmarshalEntropy\<close> returns is not used, and there is no other failure.
\<close>

theorem new_seed_validates_then_derives:
  "NewSeed sha kdf e mnemonic password =
    (case UnmarshalEntropy sha e mnemonic of
       Inl err \<Rightarrow> Inl err
     | Inr full \<Rightarrow>
         Inr (kdf (bytes_of_string mnemonic) (bytes_of_string (''mnemonic'' @ password)) 2048 64))"
  by (simp add: NewSeed_def createSeedHash_def split: sum.splits)

text \<open>
  Two instances of C3: a mnemonic that is accepted, and one of two words, which is
  rejected with the error of \<open>UnmarshalEntropy\<close>.
\<close>

theorem new_seed_validates_then_derives_witness:
  "NewSeed sample_sha256 sample_pbkdf2 (NewEncoder small_wordList) sample_mnemonic ''TREZOR'' =
     Inr (sample_pbkdf2 (bytes_of_string sample_mnemonic) (bytes_of_string ''mnemonicTREZOR'') 2048 64) \<and>
   NewSeed sample_sha256 sample_pbkdf2 (NewEncoder small_wordList) ''zero three'' ''TREZOR'' =
     Inl ErrMnemonicLengthInvalid \<and>
   UnmarshalEntropy sample_sha256 (NewEncoder small_wordList) ''zero three'' =
     Inl ErrMnemonicLengthInvalid"
proof -
  have "UnmarshalEntropy sample_sha256 (NewEncoder small_wordList) ''zero three'' =
      Inl ErrMnemonicLengthInvalid"
    by code_simp
  then show ?thesis
    using new_seed_validates_then_derives [of sample_sha256 sample_pbkdf2 "NewEncoder small_wordList" sample_mnemonic "''TREZOR''"]
      new_seed_validates_then_derives [of sample_sha256 sample_pbkdf2 "NewEncoder small_wordList" "''zero three''" "''TREZOR''"]
    by (simp add: UnmarshalEntropy_small)
qed

text \<open>
  Claim C4.  For an entropy of 128, 160, 192, 224 or 256 bits, the slice of words that
  \<open>MarshalEntropy\<close> joins into the mnemonic has \<open>(bits + bits div 32) div 11\<close> elements;
  this number is \<open>bits / 11 + bits / (32 * 11)\<close> in exact arithmetic and one of 12, 15,
  18, 21 and 24.  When the words of the word list are fields of their own, it is also
  the number of fields of the mnemonic.  With a word list of at least 2048 entries the
  mnemonic is returned.
\<close>

theorem marshal_word_count:
  assumes "8 * length entropy \<in> {128, 160, 192, 224, 256}"
  shows "(\<forall>words. MarshalEntropy_words sha e entropy = Inr words \<longrightarrow>
      MarshalEntropy sha e entropy = Inr (Join words '' '') \<and>
      length words = (8 * length entropy + 8 * length entropy div 32) div 11 \<and>
      real (length words) = real (8 * length entropy) / 11 + real (8 * length entropy) / (32 * 11) \<and>
      length words \<in> {12, 15, 18, 21, 24} \<and>
      ((\<forall>w \<in> set (wordList e). Fields w = [w]) \<longrightarrow> Fields (Join words '' '') = words)) \<and>
    (2048 \<le> length (wordList e) \<longrightarrow> (\<exists>words. MarshalEntropy_words sha e entropy = Inr words))"
proof (intro conjI allI impI)
  fix words
  assume w: "MarshalEntropy_words sha e entropy = Inr words"
  then show "MarshalEntropy sha e entropy = Inr (Join words '' '')"
    by (simp add: MarshalEntropy_def)
  show n: "length words = (8 * length entropy + 8 * length entropy div 32) div 11"
    using assms w by (rule MarshalEntropy_words_length)
  from assms show "length words \<in> {12, 15, 18, 21, 24}"
    unfolding n by auto
  from assms show "real (length words) = real (8 * length entropy) / 11 + real (8 * length entropy) / (32 * 11)"
    unfolding n by auto
  assume "\<forall>w \<in> set (wordList e). Fields w = [w]"
  moreover have "set words \<subseteq> set (wordList e)"
    using assms w by (rule MarshalEntropy_words_length)
  ultimately have "\<forall>w \<in> set words. Fields w = [w]"
    by blast
  then show "Fields (Join words '' '') = words"
    by (rule Fields_Join)
next
  assume wl: "2048 \<le> length (wordList e)"
  obtain k where len: "length entropy = 4 * k" "4 \<le> k" "k \<le> 8"
    using assms(1) by (auto simp add: valid_length)
  have "\<forall>i \<in> set (wordIndices (3 * k) (SetBytes entropy * 2 ^ k + Checksum sha entropy)).
      i < length (wordList e)"
    using wordIndices_less wl by fastforce
  then show "\<exists>words. MarshalEntropy_words sha e entropy = Inr words"
    by (simp add: MarshalEntropy_words_result [OF len])
qed

text \<open>
  The instance of C4 at sixteen zero bytes and the sample word list: twelve words.
\<close>

theorem marshal_word_count_witness:
  "\<exists>words.
     MarshalEntropy_words sample_sha256 (NewEncoder sample_wordList) (replicate 16 0) = Inr words \<and>
     MarshalEntropy sample_sha256 (NewEncoder sample_wordList) (replicate 16 0) = Inr (Join words '' '') \<and>
     length words = 12 \<and> real (length words) = 128 / 11 + 128 / (32 * 11) \<and>
     Fields (Join words '' '') = words"
proof -
  note inst = marshal_word_count [of "replicate 16 0" sample_sha256 "NewEncoder sample_wordList"]
  have valid: "8 * length (replicate 16 (0::byte)) \<in> {128, 160, 192, 224, 256}"
    by simp
  have "2048 \<le> length (wordList (NewEncoder sample_wordList))"
    by (simp add: wordList_NewEncoder length_sample_wordList)
  with inst [OF valid] obtain words
    where words: "MarshalEntropy_words sample_sha256 (NewEncoder sample_wordList) (replicate 16 0) = Inr words"
    by blast
  moreover have "\<forall>w \<in> set (wordList (NewEncoder sample_wordList)). Fields w = [w]"
    unfolding wordList_NewEncoder by (rule Fields_sample_wordList)
  ultimately show ?thesis
    using inst [OF valid, THEN conjunct1, rule_format, OF words] by (intro exI [of _ words]) simp
qed

text \<open>
  Claim C5.  \<open>MarshalEntropy\<close> returns \<open>ErrEntropyLengthInvalid\<close> if and only if eight
  times the length of the entropy is not one of 128, 160, 192, 224 and 256, whatever the
  word list; so an entropy of 12 bytes and one of 36 bytes are rejected with this error,
  and the result is an error: no mnemonic comes with it.
\<close>

theorem marshal_rejects_invalid_length:
  "(MarshalEntropy sha e entropy = Inl ErrEntropyLengthInvalid \<longleftrightarrow>
      8 * length entropy \<notin> {128, 160, 192, 224, 256}) \<and>
   (length entropy = 12 \<or> length entropy = 36 \<longrightarrow>
      MarshalEntropy sha e entropy = Inl ErrEntropyLengthInvalid)"
proof -
  have iff: "MarshalEntropy sha e entropy = Inl ErrEntropyLengthInvalid \<longleftrightarrow>
      8 * length entropy \<notin> {128, 160, 192, 224, 256}"
  proof (cases "8 * length entropy \<in> {128, 160, 192, 224, 256}")
    case True
    then have "MarshalEntropy_words sha e entropy \<noteq> Inl ErrEntropyLengthInvalid"
      by (rule MarshalEntropy_words_valid)
    with True show ?thesis
      by (auto simp add: MarshalEntropy_def split: sum.splits)
  next
    case False
    then have "MarshalEntropy_words sha e entropy = Inl ErrEntropyLengthInvalid"
      by (rule MarshalEntropy_words_invalid)
    with False show ?thesis
      by (simp add: MarshalEntropy_def)
  qed
  then show ?thesis
    by auto
qed

text \<open>
  Instances of C5: 12 and 36 zero bytes are rejected, 16 zero bytes are not.
\<close>

theorem marshal_rejects_invalid_length_witness:
  "MarshalEntropy sample_sha256 (NewEncoder small_wordList) (replicate 12 0) =
     Inl ErrEntropyLengthInvalid \<and>
   MarshalEntropy sample_sha256 (NewEncoder small_wordList) (replicate 36 0) =
     Inl ErrEntropyLengthInvalid \<and>
   MarshalEntropy sample_sha256 (NewEncoder small_wordList) (replicate 16 0) \<noteq>
     Inl ErrEntropyLengthInvalid"
  using marshal_rejects_invalid_length [of sample_sha256 "NewEncoder small_wordList" "replicate 12 0"]
    marshal_rejects_invalid_length [of sample_sha256 "NewEncoder small_wordList" "replicate 36 0"]
    marshal_rejects_invalid_length [of sample_sha256 "NewEncoder small_wordList" "replicate 16 0"]
  by simp

text \<open>
  Claim C6.  \<open>UnmarshalEntropy\<close> returns \<open>ErrMnemonicLengthInvalid\<close> if and only if the
  number of white space separated fields of the mnemonic is not a multiple of 3, is
  below 12 or is above 24.  The encoder is arbitrary: the words are not looked up, so
  11, 13 or 25 fields give this error also when no field is a word of the list.
\<close>

theorem unmarshal_rejects_invalid_word_count:
  "(UnmarshalEntropy sha e m = Inl ErrMnemonicLengthInvalid \<longleftrightarrow>
      length (Fields m) mod 3 \<noteq> 0 \<or> length (Fields m) < 12 \<or> 24 < length (Fields m)) \<and>
   (length (Fields m) \<in> {11, 13, 25} \<longrightarrow>
      UnmarshalEntropy sha e m = Inl ErrMnemonicLengthInvalid)"
proof -
  let ?bad = "length (Fields m) mod 3 \<noteq> 0 \<or> length (Fields m) < 12 \<or> 24 < length (Fields m)"
  have "UnmarshalEntropy sha e m = Inl ErrMnemonicLengthInvalid" if ?bad
    using that by (rule UnmarshalEntropy_invalid_count)
  moreover have "UnmarshalEntropy sha e m \<noteq> Inl ErrMnemonicLengthInvalid" if "\<not> ?bad"
  proof -
    from that obtain k where count: "length (Fields m) = 3 * k" and k: "4 \<le> k" "k \<le> 8"
      unfolding valid_count by blast
    show ?thesis
      unfolding UnmarshalEntropy_count [OF count k]
      by (auto split: sum.splits dest: UnmarshalEntropy_loop_error)
  qed
  moreover have "length (Fields m) \<in> {11, 13, 25} \<Longrightarrow> ?bad"
    by auto
  ultimately show ?thesis
    by blast
qed

text \<open>
  Instances of C6: 11, 13 and 25 fields, none of them in the word list, are rejected
  with \<open>ErrMnemonicLengthInvalid\<close>; the sample mnemonic of 12 words is not.
\<close>

theorem unmarshal_rejects_invalid_word_count_witness:
  "UnmarshalEntropy sample_sha256 (NewEncoder small_wordList) eleven_words = Inl ErrMnemonicLengthInvalid \<and>
   UnmarshalEntropy sample_sha256 (NewEncoder small_wordList) thirteen_words = Inl ErrMnemonicLengthInvalid \<and>
   UnmarshalEntropy sample_sha256 (NewEncoder small_wordList) twentyfive_words = Inl ErrMnemonicLengthInvalid \<and>
   UnmarshalEntropy sample_sha256 (NewEncoder small_wordList) sample_mnemonic \<noteq> Inl ErrMnemonicLengthInvalid"
  using unmarshal_rejects_invalid_word_count [of sample_sha256 "NewEncoder small_wordList" eleven_words]
    unmarshal_rejects_invalid_word_count [of sample_sha256 "NewEncoder small_wordList" thirteen_words]
    unmarshal_rejects_invalid_word_count [of sample_sha256 "NewEncoder small_wordList" twentyfive_words]
    unmarshal_rejects_invalid_word_count [of sample_sha256 "NewEncoder small_wordList" sample_mnemonic]
  by (simp add: sample_counts)

text \<open>
  Claim C7 says that the error of an unknown word identifies the word.  It does not:
  the error is the one value \<open>ErrMnemonicWordInvalid\<close>.  Two mnemonics whose second
  words, \<open>abc\<close> and \<open>xyz\<close>, are unknown give the same error.
\<close>

theorem unknown_word_error_counterexample:
  "UnmarshalEntropy sample_sha256 (NewEncoder small_wordList) unknown_abc = Inl ErrMnemonicWordInvalid \<and>
   UnmarshalEntropy sample_sha256 (NewEncoder small_wordList) unknown_xyz = Inl ErrMnemonicWordInvalid \<and>
   Fields unknown_abc ! 1 = ''abc'' \<and> Fields unknown_xyz ! 1 = ''xyz''"
  by code_simp

text \<open>
  Claim C7, amended.  When a mnemonic has 12, 15, 18, 21 or 24 fields and one of them is
  not a key of the word map, \<open>UnmarshalEntropy\<close> returns \<open>ErrMnemonicWordInvalid\<close>, a
  value that carries no word.  The result is the same for every hash function, so the
  checksum does not contribute to it, and the loop over the words returns this error
  whatever follows the unknown word and whatever it has accumulated.
\<close>

theorem unmarshal_unknown_word:
  assumes "length (Fields m) \<in> {12, 15, 18, 21, 24}"
    and "Fields m = known @ v # rest" and "wordMap e v = None"
  shows "(\<forall>sha. UnmarshalEntropy sha e m = Inl ErrMnemonicWordInvalid) \<and>
    (\<forall>rest' acc. UnmarshalEntropy_loop (wordMap e) (known @ v # rest') acc = Inl ErrMnemonicWordInvalid)"
proof (intro conjI allI)
  fix sha :: sha256
  have "\<not> (length (Fields m) mod 3 \<noteq> 0 \<or> length (Fields m) < 12 \<or> length (Fields m) > 24)"
    using assms(1) by auto
  then obtain k where count: "length (Fields m) = 3 * k" and k: "4 \<le> k" "k \<le> 8"
    unfolding valid_count by blast
  have "UnmarshalEntropy_loop (wordMap e) (Fields m) 0 = Inl ErrMnemonicWordInvalid"
    using assms(3) by (rule UnmarshalEntropy_loop_unknown) (simp add: assms(2))
  then show "UnmarshalEntropy sha e m = Inl ErrMnemonicWordInvalid"
    by (simp add: UnmarshalEntropy_count [OF count k])
next
  fix rest' acc
  show "UnmarshalEntropy_loop (wordMap e) (known @ v # rest') acc = Inl ErrMnemonicWordInvalid"
    using assms(3) by (rule UnmarshalEntropy_loop_unknown) simp
qed

text \<open>
  The instance of the amended C7 at a mnemonic whose second word is unknown.
\<close>

theorem unmarshal_unknown_word_witness:
  "UnmarshalEntropy sample_sha256 (NewEncoder small_wordList) unknown_abc = Inl ErrMnemonicWordInvalid"
  using unmarshal_unknown_word [of unknown_abc "[''zero'']" "''abc''" _ "NewEncoder small_wordList", OF _ Fields_unknown]
  by (simp add: Fields_unknown(1))

text \<open>
  Claim C8.  \<open>NewEntropy\<close> ends with \<open>return entropy, err\<close>: when the random source
  fails after five bytes of a request for 128 bits, the caller receives the error and,
  with it, the slice of sixteen bytes, five of them written.  The other error path of
  the function returns \<open>nil\<close> with the error.
\<close>

theorem new_entropy_error_with_buffer:
  "NewEntropy (\<lambda>n. ([7, 7, 7, 7, 7], Some RandomSourceFailure)) 128 =
    (Some [7, 7, 7, 7, 7, 0, 0, 0, 0, 0, 0, 0, 0, 0, 0, 0], Some RandomSourceFailure)"
  by code_simp

text \<open>
  Claim C9.  \<open>NewEncoder\<close> keeps the word list it is given, of whatever length.  Every
  index that a round of the loop of \<open>MarshalEntropy\<close> computes is at most 2047.  For a
  given word list, no entropy of 128, 160, 192, 224 or 256 bits makes the index
  expression panic if and only if the list has at least 2048 entries; with a shorter
  list, sixteen bytes \<open>0xFF\<close> do, whatever the hash function.
\<close>

theorem wordlist_lookup_in_bounds:
  "wordList (NewEncoder wl) = wl \<and>
   (\<exists>idx. wordIndex entropyInt = Inr idx \<and> uint idx = entropyInt AND 2047 \<and> unat idx \<le> 2047) \<and>
   ((\<forall>entropy. 8 * length entropy \<in> {128, 160, 192, 224, 256} \<longrightarrow>
       MarshalEntropy sha (NewEncoder wl) entropy \<noteq> Inl PanicIndexOutOfRange) \<longleftrightarrow>
     2048 \<le> length wl) \<and>
   (length wl < 2048 \<longrightarrow>
     MarshalEntropy sha (NewEncoder wl) (replicate 16 255) = Inl PanicIndexOutOfRange)"
proof (intro conjI)
  show "wordList (NewEncoder wl) = wl"
    by (rule wordList_NewEncoder)
  let ?idx = "word_of_int (entropyInt AND 2047) :: 16 word"
  have u: "unat ?idx = nat (entropyInt AND 2047)"
    by (rule unat_wordIndex)
  have "nat (entropyInt AND 2047) \<le> 2047"
    using and_2047_bounds [of entropyInt] by linarith
  then have "unat ?idx \<le> 2047"
    by (simp only: u)
  moreover have "int (nat (entropyInt AND 2047)) = entropyInt AND 2047"
    using and_2047_bounds(1) [of entropyInt] by (rule nat_0_le)
  then have "int (unat ?idx) = entropyInt AND 2047"
    by (simp only: u)
  then have "uint ?idx = entropyInt AND 2047"
    by simp
  moreover have "wordIndex entropyInt = Inr ?idx"
    by (rule wordIndex_eq)
  ultimately show "\<exists>idx. wordIndex entropyInt = Inr idx \<and> uint idx = entropyInt AND 2047 \<and>
      unat idx \<le> 2047"
    by blast
  show short: "length wl < 2048 \<longrightarrow>
      MarshalEntropy sha (NewEncoder wl) (replicate 16 255) = Inl PanicIndexOutOfRange"
    by (simp add: MarshalEntropy_short_wordList wordList_NewEncoder)
  show "(\<forall>entropy. 8 * length entropy \<in> {128, 160, 192, 224, 256} \<longrightarrow>
       MarshalEntropy sha (NewEncoder wl) entropy \<noteq> Inl PanicIndexOutOfRange) \<longleftrightarrow>
     2048 \<le> length wl"
  proof
    assume all: "\<forall>entropy. 8 * length entropy \<in> {128, 160, 192, 224, 256} \<longrightarrow>
       MarshalEntropy sha (NewEncoder wl) entropy \<noteq> Inl PanicIndexOutOfRange"
    have "8 * length (replicate 16 (255::byte)) \<in> {128, 160, 192, 224, 256}"
      by simp
    with all have "MarshalEntropy sha (NewEncoder wl) (replicate 16 255) \<noteq> Inl PanicIndexOutOfRange"
      by blast
    with short show "2048 \<le> length wl"
      by (cases "length wl < 2048") simp_all
  next
    assume "2048 \<le> length wl"
    then show "\<forall>entropy. 8 * length entropy \<in> {128, 160, 192, 224, 256} \<longrightarrow>
       MarshalEntropy sha (NewEncoder wl) entropy \<noteq> Inl PanicIndexOutOfRange"
      using MarshalEntropy_long_wordList [of "NewEncoder wl" _ sha]
      by (fastforce simp add: wordList_NewEncoder)
  qed
qed

text \<open>
  Instances of C9: with the list of four words the lookup panics on sixteen bytes
  \<open>0xFF\<close>, with the sample list of 2048 words it does not.
\<close>

theorem wordlist_lookup_in_bounds_witness:
  "MarshalEntropy sample_sha256 (NewEncoder small_wordList) (replicate 16 255) =
     Inl PanicIndexOutOfRange \<and>
   MarshalEntropy sample_sha256 (NewEncoder sample_wordList) (replicate 16 255) \<noteq>
     Inl PanicIndexOutOfRange \<and>
   wordList (NewEncoder small_wordList) = small_wordList"
proof -
  have "length small_wordList < 2048"
    by (simp add: small_wordList_def)
  moreover have "8 * length (replicate 16 (255::byte)) \<in> {128, 160, 192, 224, 256}"
    by simp
  ultimately show ?thesis
    using wordlist_lookup_in_bounds [of small_wordList 0 sample_sha256]
      wordlist_lookup_in_bounds [of sample_wordList 0 sample_sha256]
    by (simp only: length_sample_wordList) blast
qed

text \<open>
  Claim C10.  \<open>UnmarshalEntropy\<close> reads a mnemonic through its fields only: two strings
  with the same fields have the same result, a value or an error.  In particular, let
  two strings spell the same words in the same order (a word being a field of its own),
  each with white space of its own choice before the first word, between the words (at
  least one character) and after the last: \<open>strings.Fields\<close> gives the words for both,
  and \<open>UnmarshalEntropy\<close> gives the same result for both.
\<close>

theorem unmarshal_ignores_white_space:
  "(Fields m1 = Fields m2 \<longrightarrow> UnmarshalEntropy sha e m1 = UnmarshalEntropy sha e m2) \<and>
   (onlySpace lead1 \<and> wellSpaced ps1 \<and> onlySpace lead2 \<and> wellSpaced ps2 \<and>
    map fst ps1 = map fst ps2 \<longrightarrow>
      Fields (spell lead1 ps1) = map fst ps1 \<and> Fields (spell lead2 ps2) = map fst ps1 \<and>
      UnmarshalEntropy sha e (spell lead1 ps1) = UnmarshalEntropy sha e (spell lead2 ps2))"
proof -
  have same: "UnmarshalEntropy sha e m = UnmarshalEntropy sha e m'" if "Fields m = Fields m'" for m m'
    using that by (simp add: UnmarshalEntropy_def)
  have "Fields (spell lead1 ps1) = map fst ps1 \<and> Fields (spell lead2 ps2) = map fst ps1"
    if "onlySpace lead1" "wellSpaced ps1" "onlySpace lead2" "wellSpaced ps2" "map fst ps1 = map fst ps2"
    using that by (simp add: Fields_spell)
  with same show ?thesis
    by (metis (no_types))
qed

text \<open>
  The instance of C10 at the sample mnemonic, once with single spaces and once with a
  tab and a space in front, runs of spaces, tabs, line feeds, carriage returns, vertical
  tab, form feed, U+0085, U+00A0 and U+3000 between the words and a space and a line
  feed at the end.
\<close>

theorem unmarshal_ignores_white_space_witness:
  "UnmarshalEntropy sample_sha256 (NewEncoder small_wordList) (spell [CHR 0x09, CHR 0x20] widely_spaced) =
     UnmarshalEntropy sample_sha256 (NewEncoder small_wordList) sample_mnemonic \<and>
   spell [CHR 0x09, CHR 0x20] widely_spaced \<noteq> sample_mnemonic \<and>
   UnmarshalEntropy sample_sha256 (NewEncoder small_wordList) sample_mnemonic =
     Inr [0, 0, 0, 0, 0, 0, 0, 0, 0, 0, 0, 0, 0, 0, 0, 0, 3]"
proof -
  have "onlySpace [CHR 0x09, CHR 0x20] \<and> wellSpaced widely_spaced \<and> onlySpace [] \<and>
      wellSpaced single_spaced \<and> map fst widely_spaced = map fst single_spaced"
    by (simp only: sample_spellings sample_spellings_words simp_thms)
  with unmarshal_ignores_white_space [of _ _ sample_sha256 "NewEncoder small_wordList"
      "[CHR 0x09, CHR 0x20]" widely_spaced "[]" single_spaced]
  have "UnmarshalEntropy sample_sha256 (NewEncoder small_wordList) (spell [CHR 0x09, CHR 0x20] widely_spaced) =
      UnmarshalEntropy sample_sha256 (NewEncoder small_wordList) (spell [] single_spaced)"
    by blast
  then show ?thesis
    by (simp only: sample_spellings_words UnmarshalEntropy_small simp_thms)
qed

end
